theory Spec2Isabelle
  imports Main "HOL-Library.Word" "HOL-Library.Multiset"
begin

section \<open>Strings, errors and decimal numerals\<close>

text \<open>
  A Go \<^verbatim>\<open>string\<close> is a byte sequence: \<^typ>\<open>string\<close>. A Go \<^verbatim>\<open>error\<close> is
  represented by the text its \<^verbatim>\<open>Error()\<close> method returns.
\<close>

type_synonym error = string

text \<open>
  \<^verbatim>\<open>strconv.Itoa\<close>: the base-10 text of an integer, a minus sign first for a
  negative one. The library picks each digit out of the string \<^verbatim>\<open>"0123456789..."\<close>.
\<close>

definition digit :: "nat \<Rightarrow> char" where
  "digit d = ''0123456789'' ! d"

fun utoa :: "nat \<Rightarrow> string" where
  "utoa n = (if n < 10 then [digit n] else utoa (n div 10) @ [digit (n mod 10)])"

declare utoa.simps [simp del]

definition Itoa :: "int \<Rightarrow> string" where
  "Itoa i = (if i < 0 then CHR ''-'' # utoa (nat (- i)) else utoa (nat i))"

text \<open>
  The reader of such a text, after \<^verbatim>\<open>strconv.ParseInt(s, 10, 64)\<close>: an optional sign,
  then one or more decimal digits, and the value has to fit 64 bits. The program itself
  only writes numbers; the reader is what a consumer of the environment applies.
\<close>

definition is_digit :: "char \<Rightarrow> bool" where
  "is_digit c = (c \<in> set ''0123456789'')"

definition digit_val :: "char \<Rightarrow> nat" where
  "digit_val c = of_char c - 48"

definition atou :: "string \<Rightarrow> nat option" where
  "atou s = (if s \<noteq> [] \<and> list_all is_digit s
             then Some (foldl (\<lambda>a c. 10 * a + digit_val c) 0 s) else None)"

definition Atoi :: "string \<Rightarrow> int option" where
  "Atoi s =
     (case s of
        [] \<Rightarrow> None
      | c # r \<Rightarrow>
          (case (if c = CHR ''-'' then map_option (\<lambda>n. - int n) (atou r)
                 else if c = CHR ''+'' then map_option int (atou r)
                 else map_option int (atou s)) of
             None \<Rightarrow> None
           | Some n \<Rightarrow> if - (2 ^ 63) \<le> n \<and> n < 2 ^ 63 then Some n else None))"

section \<open>Timestamps\<close>

text \<open>
  \<^verbatim>\<open>time.Time\<close>, as far as \<^verbatim>\<open>timeToStr\<close> looks at it: the seconds since
  January 1 of year 1 (an \<^verbatim>\<open>int64\<close>, what \<^verbatim>\<open>t.sec()\<close> returns) and the nanoseconds
  within the second. \<^verbatim>\<open>IsZero\<close> holds when both are 0; \<^verbatim>\<open>Unix\<close> shifts the seconds
  to the epoch of 1970 in 64-bit arithmetic; \<^verbatim>\<open>time.Unix(s, 0)\<close> shifts back.
\<close>

record Time =
  t_sec :: "64 word"
  t_nsec :: "32 word"

definition unixToInternal :: "64 word" where
  "unixToInternal = 62135596800"

definition IsZero :: "Time \<Rightarrow> bool" where
  "IsZero t = (t_sec t = 0 \<and> t_nsec t = 0)"

definition Unix :: "Time \<Rightarrow> 64 word" where
  "Unix t = t_sec t - unixToInternal"

definition time_Unix :: "64 word \<Rightarrow> Time" where
  "time_Unix s = \<lparr>t_sec = s + unixToInternal, t_nsec = 0\<rparr>"

text \<open>
  \<^verbatim>\<open>
  func timeToStr(t time.Time) string {
      if t.IsZero() {
          return "0"
      }
      return strconv.Itoa(int(t.Unix()))
  }
  \<close>
  \<^verbatim>\<open>int\<close> is taken as 64 bits wide (amd64, arm64), so the conversion keeps the value:
  \<^term>\<open>sint\<close> reads the word as the signed number it is.
\<close>

definition timeToStr :: "Time \<Rightarrow> string" where
  "timeToStr t = (if IsZero t then ''0'' else Itoa (sint (Unix t)))"

text \<open>Reading a timestamp back from its text: the number, then \<^verbatim>\<open>time.Unix(n, 0)\<close>.\<close>

definition parse_time :: "string \<Rightarrow> Time option" where
  "parse_time s = map_option (\<lambda>n. time_Unix (word_of_int n)) (Atoi s)"

section \<open>The alert payload\<close>

text \<open>
  \<^verbatim>\<open>template.Data\<close> and \<^verbatim>\<open>template.Alert\<close> of the Alertmanager, field by field. A map
  from strings to strings (\<^verbatim>\<open>template.KV\<close>) is the list of its entries; a map holds
  each key once, and a \<^verbatim>\<open>nil\<close> map is the empty list.
\<close>

type_synonym KV = "(string \<times> string) list"

record Alert =
  alert_Status :: string
  alert_Labels :: KV
  alert_Annotations :: KV
  StartsAt :: Time
  EndsAt :: Time
  GeneratorURL :: string
  Fingerprint :: string

record Data =
  Receiver :: string
  Status :: string
  Alerts :: "Alert list"
  GroupLabels :: KV
  CommonLabels :: KV
  CommonAnnotations :: KV
  ExternalURL :: string

section \<open>The environment encoder\<close>

text \<open>
  Go leaves the order in which \<^verbatim>\<open>range\<close> visits the entries of a map open, and it need not
  be the same from one loop to the next. So a function that ranges over maps has several
  possible results; it is modelled by the list of all of them. \<^term>\<open>range_orders m\<close>
  lists every order in which the entries of \<^term>\<open>m\<close> can be visited.
\<close>

fun interleave :: "'a \<Rightarrow> 'a list \<Rightarrow> 'a list list" where
  "interleave x [] = [[x]]"
| "interleave x (y # ys) = (x # y # ys) # map ((#) y) (interleave x ys)"

fun range_orders :: "'a list \<Rightarrow> 'a list list" where
  "range_orders [] = [[]]"
| "range_orders (x # xs) = concat (map (interleave x) (range_orders xs))"

text \<open>
  Statements that run one after the other, each appending one of its possible blocks of
  entries: every way of choosing one block from each, in the order of the statements.
\<close>

fun seqs :: "'a list list list \<Rightarrow> 'a list list" where
  "seqs [] = [[]]"
| "seqs (A # As) = concat (map (\<lambda>a. map ((@) a) (seqs As)) A)"

text \<open>
  The inner loop \<^verbatim>\<open>for k, v := range m { env = append(env, f(k, v)) }\<close>, and the outer loop
  \<^verbatim>\<open>for p, m := range map[string]map[string]string{...} { ... }\<close> over a map literal with
  the inner loop as its body.
\<close>

definition range_kv :: "(string \<Rightarrow> string \<Rightarrow> string) \<Rightarrow> KV \<Rightarrow> string list list" where
  "range_kv f m = map (map (\<lambda>(k, v). f k v)) (range_orders m)"

definition range_maps ::
  "(string \<Rightarrow> string \<Rightarrow> string \<Rightarrow> string) \<Rightarrow> (string \<times> KV) list \<Rightarrow> string list list" where
  "range_maps f pms =
     concat (map (\<lambda>ord. seqs (map (\<lambda>(p, m). range_kv (f p) m) ord)) (range_orders pms))"

text \<open>
  \<^verbatim>\<open>
  func amDataToEnv(td *template.Data) []string {
      env := []string{
          "AMX_RECEIVER=" + td.Receiver,
          "AMX_STATUS=" + td.Status,
          "AMX_EXTERNAL_URL=" + td.ExternalURL,
          "AMX_ALERT_LEN=" + strconv.Itoa(len(td.Alerts)),
      }
      for p, m := range map[string]map[string]string{
          "AMX_LABEL":      td.CommonLabels,
          "AMX_GLABEL":     td.GroupLabels,
          "AMX_ANNOTATION": td.CommonAnnotations,
      } {
          for k, v := range m {
              env = append(env, p+"_"+k+"="+v)
          }
      }
      for i, alert := range td.Alerts {
          key := "AMX_ALERT_" + strconv.Itoa(i+1)
          env = append(env,
              key+"_STATUS"+"="+alert.Status,
              key+"_START"+"="+timeToStr(alert.StartsAt),
              key+"_END"+"="+timeToStr(alert.EndsAt),
              key+"_URL"+"="+alert.GeneratorURL,
          )
          for p, m := range map[string]map[string]string{
              "LABEL":      alert.Labels,
              "ANNOTATION": alert.Annotations,
          } {
              for k, v := range m {
                  env = append(env, key+"_"+p+"_"+k+"="+v)
              }
          }
      }
      return env
  }
  \<close>
  The loop over \<^verbatim>\<open>td.Alerts\<close> ranges over a slice, in order, with \<^verbatim>\<open>i\<close> from 0.
\<close>

definition alert_key :: "nat \<Rightarrow> string" where
  "alert_key i = ''AMX_ALERT_'' @ Itoa (int i + 1)"

definition alert_scalars :: "nat \<Rightarrow> Alert \<Rightarrow> string list" where
  "alert_scalars i alert =
     [alert_key i @ ''_STATUS'' @ ''='' @ alert_Status alert,
      alert_key i @ ''_START'' @ ''='' @ timeToStr (StartsAt alert),
      alert_key i @ ''_END'' @ ''='' @ timeToStr (EndsAt alert),
      alert_key i @ ''_URL'' @ ''='' @ GeneratorURL alert]"

definition alert_entry :: "nat \<Rightarrow> string \<Rightarrow> string \<Rightarrow> string \<Rightarrow> string" where
  "alert_entry i p k v = alert_key i @ ''_'' @ p @ ''_'' @ k @ ''='' @ v"

definition alert_maps :: "Alert \<Rightarrow> (string \<times> KV) list" where
  "alert_maps alert = [(''LABEL'', alert_Labels alert), (''ANNOTATION'', alert_Annotations alert)]"

definition alert_env :: "nat \<Rightarrow> Alert \<Rightarrow> string list list" where
  "alert_env i alert =
     seqs [[alert_scalars i alert], range_maps (alert_entry i) (alert_maps alert)]"

definition top_scalars :: "Data \<Rightarrow> string list" where
  "top_scalars td =
     [''AMX_RECEIVER='' @ Receiver td,
      ''AMX_STATUS='' @ Status td,
      ''AMX_EXTERNAL_URL='' @ ExternalURL td,
      ''AMX_ALERT_LEN='' @ Itoa (int (length (Alerts td)))]"

definition top_entry :: "string \<Rightarrow> string \<Rightarrow> string \<Rightarrow> string" where
  "top_entry p k v = p @ ''_'' @ k @ ''='' @ v"

definition top_maps :: "Data \<Rightarrow> (string \<times> KV) list" where
  "top_maps td =
     [(''AMX_LABEL'', CommonLabels td),
      (''AMX_GLABEL'', GroupLabels td),
      (''AMX_ANNOTATION'', CommonAnnotations td)]"

definition amDataToEnv :: "Data \<Rightarrow> string list list" where
  "amDataToEnv td =
     seqs [[top_scalars td],
           range_maps top_entry (top_maps td),
           seqs (map (\<lambda>(i, alert). alert_env i alert) (enumerate 0 (Alerts td)))]"

text \<open>The NAME of an entry \<^verbatim>\<open>NAME=VALUE\<close>: the text before the first \<^verbatim>\<open>=\<close>.\<close>

definition NAME :: "string \<Rightarrow> string" where
  "NAME e = takeWhile (\<lambda>c. c \<noteq> CHR ''='') e"

text \<open>
  The maps of a payload; each of them holds a key once (\<^term>\<open>unique_keys\<close>, which
  every Go map satisfies); no key of them holds the character \<^verbatim>\<open>=\<close> (\<^term>\<open>plain_keys\<close>).
\<close>

definition all_maps :: "Data \<Rightarrow> KV list" where
  "all_maps td =
     [CommonLabels td, GroupLabels td, CommonAnnotations td] @
     concat (map (\<lambda>alert. [alert_Labels alert, alert_Annotations alert]) (Alerts td))"

definition unique_keys :: "Data \<Rightarrow> bool" where
  "unique_keys td = list_all (\<lambda>m. distinct (map fst m)) (all_maps td)"

definition plain_keys :: "Data \<Rightarrow> bool" where
  "plain_keys td = list_all (\<lambda>m. list_all (\<lambda>(k, v). CHR ''='' \<notin> set k) m) (all_maps td)"

section \<open>Metrics, log and child processes\<close>

text \<open>
  The package-level state the handlers share, and what they leave behind in the world:
  \<^item> \<^verbatim>\<open>processDuration\<close>, the histogram \<^verbatim>\<open>am_executor_process_duration_seconds\<close>
    ("Time the processes handling alerts ran."): the samples observed so far;
  \<^item> \<^verbatim>\<open>processesCurrent\<close>, the gauge \<^verbatim>\<open>am_executor_processes_current\<close>; \<^verbatim>\<open>Inc\<close> adds
    1 and \<^verbatim>\<open>Dec\<close> takes 1 away (the gauge is a float in the library; the counts here are
    whole numbers);
  \<^item> \<^verbatim>\<open>errCounter\<close>, the counter vector \<^verbatim>\<open>am_executor_errors_total\<close> with the label
    \<^verbatim>\<open>stage\<close>: the value of each child counter that exists;
  \<^item> the lines written with the \<^verbatim>\<open>log\<close> package;
  \<^item> the child processes run so far, each with the value the gauge had while it ran.
\<close>

record Cmd =
  Path :: string
  Args :: "string list"
  Env :: "string list"

datatype logline =
    Log_text string
  | Log_body string
  | Log_payload Data
  | Log_error error
  | Log_child string

record world =
  processDuration :: "nat list"
  processesCurrent :: int
  errCounter :: "string \<Rightarrow> nat option"
  logged :: "logline list"
  executed :: "(Cmd \<times> int) list"

text \<open>
  \<^verbatim>\<open>cmd.Run()\<close> starts the child and waits for it. It returns no error when the child
  exits with status 0, an \<^verbatim>\<open>*ExitError\<close> when it exits with another status, and another
  error when the child cannot be started.
\<close>

datatype cmd_result = Exit0 | ExitStatus nat | StartError error

fun Run_error :: "cmd_result \<Rightarrow> error option" where
  "Run_error Exit0 = None"
| "Run_error (ExitStatus n) = Some (''exit status '' @ Itoa (int n))"
| "Run_error (StartError e) = Some e"

text \<open>
  \<^verbatim>\<open>
  type runner struct {
      command   string
      args      []string
      processes []exec.Cmd
  }
  \<close>
\<close>

record runner =
  command :: string
  args :: "string list"
  processes :: "Cmd list"

text \<open>
  What a handler reads from outside itself: the \<^verbatim>\<open>-v\<close> flag, the runner \<^verbatim>\<open>rnr\<close> set up
  by \<^verbatim>\<open>main\<close>, the environment of the server process (\<^verbatim>\<open>os.Environ()\<close>), the JSON decoder
  (\<^verbatim>\<open>json.Unmarshal(data, payload)\<close> returns an error or none and leaves the payload
  filled as far as it came) and the operating system running a command (the result of
  \<^verbatim>\<open>cmd.Run()\<close> and the chunks the child wrote to its standard output and error).
\<close>

record host =
  verbose :: bool
  rnr :: runner
  os_Environ :: "string list"
  json_Unmarshal :: "string \<Rightarrow> Data \<Rightarrow> error option \<times> Data"
  cmd_Run :: "Cmd \<Rightarrow> cmd_result \<times> string list"

text \<open>
  \<^verbatim>\<open>
  func (r *runner) run(env []string) error {
      lw := &logWriter{}
      processesCurrent.Inc()
      defer processesCurrent.Dec()
      cmd := exec.Command(r.command, r.args...)
      cmd.Env = append(os.Environ(), env...)
      cmd.Stdout = lw
      cmd.Stderr = lw
      return cmd.Run()
  }
  \<close>
  The deferred \<^verbatim>\<open>Dec\<close> runs after \<^verbatim>\<open>cmd.Run()\<close> has returned, whatever it returned. The
  log writer passes each chunk of the child's output to \<^verbatim>\<open>log.Print\<close>. Nothing in the
  function reads a clock or touches \<^verbatim>\<open>processDuration\<close>.
\<close>

definition exec_Command :: "host \<Rightarrow> string list \<Rightarrow> Cmd" where
  "exec_Command h env =
     \<lparr>Path = command (rnr h), Args = command (rnr h) # args (rnr h), Env = os_Environ h @ env\<rparr>"

definition run :: "host \<Rightarrow> string list \<Rightarrow> world \<Rightarrow> error option \<times> world" where
  "run h env s =
     (let s1 = s\<lparr>processesCurrent := processesCurrent s + 1\<rparr>;
          cmd = exec_Command h env;
          (res, out) = cmd_Run h cmd;
          s2 = s1\<lparr>executed := executed s1 @ [(cmd, processesCurrent s1)],
                  logged := logged s1 @ map Log_child out\<rparr>;
          s3 = s2\<lparr>processesCurrent := processesCurrent s2 - 1\<rparr>
      in (Run_error res, s3))"

section \<open>The webhook handler\<close>

text \<open>
  A request, as far as a handler can look at it: the method, the path and what
  \<^verbatim>\<open>ioutil.ReadAll(req.Body)\<close> returns (the bytes read and an error or none). The response
  writer holds the status once it is written and the body written so far; a handler that
  writes nothing leaves the status open and the server sends 200.
\<close>

record request =
  Method :: string
  URL_Path :: string
  Body :: "string \<times> error option"

record response =
  resp_status :: "nat option"
  resp_body :: string

text \<open>
  \<^verbatim>\<open>http.Error(w, msg, code)\<close> writes the header with the status and then the message and a
  newline. A status that is already written stays; the text is appended.
\<close>

definition http_Error :: "response \<Rightarrow> string \<Rightarrow> nat \<Rightarrow> response" where
  "http_Error w msg code =
     \<lparr>resp_status = (case resp_status w of None \<Rightarrow> Some code | Some c \<Rightarrow> Some c),
      resp_body = resp_body w @ msg @ [CHR 0x0A]\<rparr>"

text \<open>
  \<^verbatim>\<open>
  func handleError(w http.ResponseWriter, err error) {
      http.Error(w, err.Error(), http.StatusInternalServerError)
      log.Println(err)
  }
  \<close>
\<close>

definition handleError :: "response \<times> world \<Rightarrow> error \<Rightarrow> response \<times> world" where
  "handleError ws err =
     (case ws of (w, s) \<Rightarrow> (http_Error w err 500, s\<lparr>logged := logged s @ [Log_error err]\<rparr>))"

text \<open>
  \<^verbatim>\<open>errCounter.WithLabelValues(stage)\<close> looks up the child counter of the label value and
  creates it with the value 0 when it is not there yet. The handler drops the counter it
  gets back: no \<^verbatim>\<open>Inc()\<close> follows in the source.
\<close>

definition WithLabelValues :: "string \<Rightarrow> world \<Rightarrow> world" where
  "WithLabelValues stage s =
     s\<lparr>errCounter := (errCounter s)
          (stage := Some (case errCounter s stage of None \<Rightarrow> 0 | Some n \<Rightarrow> n))\<rparr>"

text \<open>The two lines each failure branch of the handler runs.\<close>

definition failed :: "string \<Rightarrow> error \<Rightarrow> response \<times> world \<Rightarrow> response \<times> world" where
  "failed stage err ws = (case handleError ws err of (w, s) \<Rightarrow> (w, WithLabelValues stage s))"

definition debug :: "host \<Rightarrow> logline \<Rightarrow> world \<Rightarrow> world" where
  "debug h l s = (if verbose h then s\<lparr>logged := logged s @ [l]\<rparr> else s)"

text \<open>The zero value of \<^verbatim>\<open>template.Data\<close>, which \<^verbatim>\<open>payload := &template.Data{}\<close> makes.\<close>

definition zero_Data :: Data where
  "zero_Data = \<lparr>Receiver = [], Status = [], Alerts = [], GroupLabels = [], CommonLabels = [],
     CommonAnnotations = [], ExternalURL = []\<rparr>"

text \<open>
  \<^verbatim>\<open>
  func handleWebhook(w http.ResponseWriter, req *http.Request) {
      if *verbose { log.Println("Webhook triggered") }
      data, err := ioutil.ReadAll(req.Body)
      if err != nil {
          handleError(w, err)
          errCounter.WithLabelValues("read")
          return
      }
      if *verbose { log.Println("Body:", string(data)) }
      payload := &template.Data{}
      if err := json.Unmarshal(data, payload); err != nil {
          handleError(w, err)
          errCounter.WithLabelValues("unmarshal")
      }
      if *verbose { log.Printf("Got: %#v", payload) }
      if err := rnr.run(amDataToEnv(payload)); err != nil {
          handleError(w, err)
          errCounter.WithLabelValues("start")
      }
  }
  \<close>
  The result lists the response and the world the handler can leave behind, one for each
  vector the encoder can return.
\<close>

definition run_stage :: "host \<Rightarrow> response \<times> world \<Rightarrow> string list \<Rightarrow> response \<times> world" where
  "run_stage h ws env =
     (case ws of (w, s) \<Rightarrow>
        (case run h env s of
           (Some err, s') \<Rightarrow> failed ''start'' err (w, s')
         | (None, s') \<Rightarrow> (w, s')))"

definition handleWebhook :: "host \<Rightarrow> request \<Rightarrow> response \<times> world \<Rightarrow> (response \<times> world) list" where
  "handleWebhook h req ws =
     (case ws of (w, s) \<Rightarrow>
        (let s0 = debug h (Log_text ''Webhook triggered'') s in
         case Body req of
           (data, Some err) \<Rightarrow> [failed ''read'' err (w, s0)]
         | (data, None) \<Rightarrow>
             (let s1 = debug h (Log_body data) s0;
                  (uerr, payload) = json_Unmarshal h data zero_Data;
                  (w2, s2) = (case uerr of
                                Some err \<Rightarrow> failed ''unmarshal'' err (w, s1)
                              | None \<Rightarrow> (w, s1));
                  s3 = debug h (Log_payload payload) s2
              in map (run_stage h (w2, s3)) (amDataToEnv payload))))"

section \<open>The reload goroutine\<close>

text \<open>The fields of the configuration \<^verbatim>\<open>main\<close> reads.\<close>

record Config =
  TLS_Enabled :: bool
  TLS_Crt :: string
  TLS_Key :: string

text \<open>
  Modelled from the spec: \<^verbatim>\<open>LoadConfig\<close> of the package \<^verbatim>\<open>pkg/config\<close> is not among the
  source files. The specification says of it that a reload either fully succeeds and
  replaces the active configuration, or fully fails and the previous configuration remains
  active. The first argument stands for the files at the time of the call: what reading
  and parsing the named file gives.
\<close>

definition LoadConfig :: "(string \<Rightarrow> error + Config) \<Rightarrow> string \<Rightarrow> Config \<Rightarrow> error option \<times> Config" where
  "LoadConfig files name c =
     (case files name of Inl err \<Rightarrow> (Some err, c) | Inr c' \<Rightarrow> (None, c'))"

text \<open>
  \<^verbatim>\<open>
  go func() {
      hup := make(chan os.Signal, 1)
      signal.Notify(hup, syscall.SIGHUP)
      select {
      case <-hup:
          err := exporterConfig.LoadConfig(*configFile)
          if err != nil {
              log.Printf("Could not reload configuration: %s\n", err.Error())
          } else {
              log.Printf("Configuration reloaded\n")
          }
      }
  }()
  \<close>
  The argument lists the reload signals that arrive, in order, each with the files as they
  are when it arrives. The \<^verbatim>\<open>select\<close> stands in no loop: the goroutine takes one signal
  from the channel, handles it and ends. With no signal it waits and changes nothing.
\<close>

record reload_state =
  exporterConfig :: Config
  reload_logged :: "logline list"

fun reload_goroutine ::
  "string \<Rightarrow> (string \<Rightarrow> error + Config) list \<Rightarrow> reload_state \<Rightarrow> reload_state" where
  "reload_goroutine configFile [] st = st"
| "reload_goroutine configFile (files # later) st =
     (case LoadConfig files configFile (exporterConfig st) of
        (Some err, c) \<Rightarrow>
          \<lparr>exporterConfig = c,
           reload_logged = reload_logged st @ [Log_text (''Could not reload configuration: '' @ err)]\<rparr>
      | (None, c) \<Rightarrow>
          \<lparr>exporterConfig = c,
           reload_logged = reload_logged st @ [Log_text ''Configuration reloaded'']\<rparr>)"

section \<open>Example inputs\<close>

definition td_0 :: Data where
  "td_0 = \<lparr>Receiver = ''r'', Status = ''s'', Alerts = [],
     GroupLabels = [], CommonLabels = [(''a'', ''1''), (''b'', ''2'')], CommonAnnotations = [],
     ExternalURL = ''u''\<rparr>"

definition td_eq :: Data where
  "td_eq = \<lparr>Receiver = ''r'', Status = ''s'', Alerts = [],
     GroupLabels = [], CommonLabels = [(''a=1'', ''x''), (''a=2'', ''y'')], CommonAnnotations = [],
     ExternalURL = ''u''\<rparr>"

definition env_eq :: "string list" where
  "env_eq = [''AMX_RECEIVER=r'', ''AMX_STATUS=s'', ''AMX_EXTERNAL_URL=u'', ''AMX_ALERT_LEN=0'',
     ''AMX_LABEL_a=1=x'', ''AMX_LABEL_a=2=y'']"

definition env_ab :: "string list" where
  "env_ab = [''AMX_RECEIVER=r'', ''AMX_STATUS=s'', ''AMX_EXTERNAL_URL=u'', ''AMX_ALERT_LEN=0'',
     ''AMX_LABEL_a=1'', ''AMX_LABEL_b=2'']"

definition env_ba :: "string list" where
  "env_ba = [''AMX_RECEIVER=r'', ''AMX_STATUS=s'', ''AMX_EXTERNAL_URL=u'', ''AMX_ALERT_LEN=0'',
     ''AMX_LABEL_b=2'', ''AMX_LABEL_a=1'']"

definition td_1 :: Data where
  "td_1 = \<lparr>Receiver = ''team-x'', Status = ''firing'',
     Alerts = [\<lparr>alert_Status = ''firing'', alert_Labels = [(''job'', ''web'')],
                alert_Annotations = [], StartsAt = \<lparr>t_sec = 63724596800, t_nsec = 5\<rparr>,
                EndsAt = \<lparr>t_sec = 0, t_nsec = 0\<rparr>, GeneratorURL = ''g'', Fingerprint = []\<rparr>],
     GroupLabels = [], CommonLabels = [(''severity'', ''critical'')], CommonAnnotations = [],
     ExternalURL = ''http://am''\<rparr>"

definition env_1 :: "string list" where
  "env_1 = [''AMX_RECEIVER=team-x'', ''AMX_STATUS=firing'', ''AMX_EXTERNAL_URL=http://am'',
     ''AMX_ALERT_LEN=1'', ''AMX_LABEL_severity=critical'',
     ''AMX_ALERT_1_STATUS=firing'', ''AMX_ALERT_1_START=1589000000'', ''AMX_ALERT_1_END=0'',
     ''AMX_ALERT_1_URL=g'', ''AMX_ALERT_1_LABEL_job=web'']"

definition world_0 :: world where
  "world_0 = \<lparr>processDuration = [], processesCurrent = 0, errCounter = (\<lambda>stage. None),
     logged = [], executed = []\<rparr>"

definition resp_0 :: response where
  "resp_0 = \<lparr>resp_status = None, resp_body = []\<rparr>"

definition host_0 :: host where
  "host_0 = \<lparr>verbose = False,
     rnr = \<lparr>command = ''/nonexistent'', args = [], processes = []\<rparr>,
     os_Environ = [''HOME=/''],
     json_Unmarshal = (\<lambda>data p. if data = ''{}'' then (None, p) else (Some ''invalid character'', p)),
     cmd_Run = (\<lambda>c. (StartError ''no such file or directory'', []))\<rparr>"

definition req_unreadable :: request where
  "req_unreadable = \<lparr>Method = ''POST'', URL_Path = ''/'', Body = ([], Some ''unexpected EOF'')\<rparr>"

definition req_garbage :: request where
  "req_garbage = \<lparr>Method = ''POST'', URL_Path = ''/'', Body = (''x'', None)\<rparr>"

definition req_get :: request where
  "req_get = \<lparr>Method = ''GET'', URL_Path = ''/'', Body = (''{}'', None)\<rparr>"

definition req_post :: request where
  "req_post = \<lparr>Method = ''POST'', URL_Path = ''/'', Body = (''{}'', None)\<rparr>"

definition env_zero :: "string list" where
  "env_zero = [''AMX_RECEIVER='', ''AMX_STATUS='', ''AMX_EXTERNAL_URL='', ''AMX_ALERT_LEN=0'']"

definition config_0 :: Config where
  "config_0 = \<lparr>TLS_Enabled = False, TLS_Crt = [], TLS_Key = []\<rparr>"

definition config_1 :: Config where
  "config_1 = \<lparr>TLS_Enabled = True, TLS_Crt = ''a.crt'', TLS_Key = ''a.key''\<rparr>"

definition config_2 :: Config where
  "config_2 = \<lparr>TLS_Enabled = True, TLS_Crt = ''b.crt'', TLS_Key = ''b.key''\<rparr>"

definition td_2 :: Data where
  "td_2 = \<lparr>Receiver = ''r'', Status = ''s'',
     Alerts = [\<lparr>alert_Status = ''a'', alert_Labels = [], alert_Annotations = [],
                StartsAt = \<lparr>t_sec = 0, t_nsec = 0\<rparr>, EndsAt = \<lparr>t_sec = 0, t_nsec = 0\<rparr>,
                GeneratorURL = ''g'', Fingerprint = []\<rparr>,
               \<lparr>alert_Status = ''b'', alert_Labels = [], alert_Annotations = [],
                StartsAt = \<lparr>t_sec = 0, t_nsec = 0\<rparr>, EndsAt = \<lparr>t_sec = 0, t_nsec = 0\<rparr>,
                GeneratorURL = ''h'', Fingerprint = []\<rparr>],
     GroupLabels = [], CommonLabels = [], CommonAnnotations = [], ExternalURL = ''u''\<rparr>"

definition env_2 :: "string list" where
  "env_2 = [''AMX_RECEIVER=r'', ''AMX_STATUS=s'', ''AMX_EXTERNAL_URL=u'', ''AMX_ALERT_LEN=2'',
     ''AMX_ALERT_1_STATUS=a'', ''AMX_ALERT_1_START=0'', ''AMX_ALERT_1_END=0'', ''AMX_ALERT_1_URL=g'',
     ''AMX_ALERT_2_STATUS=b'', ''AMX_ALERT_2_START=0'', ''AMX_ALERT_2_END=0'', ''AMX_ALERT_2_URL=h'']"

definition env_2_mixed :: "string list" where
  "env_2_mixed = [''AMX_RECEIVER=r'', ''AMX_STATUS=s'', ''AMX_EXTERNAL_URL=u'', ''AMX_ALERT_LEN=2'',
     ''AMX_ALERT_2_STATUS=b'', ''AMX_ALERT_1_STATUS=a'', ''AMX_ALERT_1_START=0'', ''AMX_ALERT_1_END=0'',
     ''AMX_ALERT_1_URL=g'', ''AMX_ALERT_2_START=0'', ''AMX_ALERT_2_END=0'', ''AMX_ALERT_2_URL=h'']"

section \<open>The entries in the order of the source text, and their names\<close>

text \<open>
  For the proofs: the vector the encoder returns when every \<^verbatim>\<open>range\<close> visits its map in
  the order the entries are listed, and the names of its entries as data.
\<close>

definition kv_entries :: "(string \<Rightarrow> string \<Rightarrow> string) \<Rightarrow> KV \<Rightarrow> string list" where
  "kv_entries f m = map (\<lambda>(k, v). f k v) m"

definition maps_entries ::
  "(string \<Rightarrow> string \<Rightarrow> string \<Rightarrow> string) \<Rightarrow> (string \<times> KV) list \<Rightarrow> string list" where
  "maps_entries f pms = concat (map (\<lambda>(p, m). kv_entries (f p) m) pms)"

definition alert_entries :: "nat \<Rightarrow> Alert \<Rightarrow> string list" where
  "alert_entries i alert = alert_scalars i alert @ maps_entries (alert_entry i) (alert_maps alert)"

definition entries :: "Data \<Rightarrow> string list" where
  "entries td =
     top_scalars td @ maps_entries top_entry (top_maps td) @
     concat (map (\<lambda>(i, alert). alert_entries i alert) (enumerate 0 (Alerts td)))"

datatype ename =
    N_Receiver | N_Status | N_ExternalURL | N_AlertLen
  | N_Label string | N_GLabel string | N_Annotation string
  | N_AStatus nat | N_AStart nat | N_AEnd nat | N_AUrl nat
  | N_ALabel nat string | N_AAnnotation nat string

fun render :: "ename \<Rightarrow> string" where
  "render N_Receiver = ''AMX_RECEIVER''"
| "render N_Status = ''AMX_STATUS''"
| "render N_ExternalURL = ''AMX_EXTERNAL_URL''"
| "render N_AlertLen = ''AMX_ALERT_LEN''"
| "render (N_Label k) = ''AMX_LABEL_'' @ k"
| "render (N_GLabel k) = ''AMX_GLABEL_'' @ k"
| "render (N_Annotation k) = ''AMX_ANNOTATION_'' @ k"
| "render (N_AStatus i) = alert_key i @ ''_STATUS''"
| "render (N_AStart i) = alert_key i @ ''_START''"
| "render (N_AEnd i) = alert_key i @ ''_END''"
| "render (N_AUrl i) = alert_key i @ ''_URL''"
| "render (N_ALabel i k) = alert_key i @ ''_LABEL_'' @ k"
| "render (N_AAnnotation i k) = alert_key i @ ''_ANNOTATION_'' @ k"

fun alert_index :: "ename \<Rightarrow> nat option" where
  "alert_index (N_AStatus i) = Some i"
| "alert_index (N_AStart i) = Some i"
| "alert_index (N_AEnd i) = Some i"
| "alert_index (N_AUrl i) = Some i"
| "alert_index (N_ALabel i k) = Some i"
| "alert_index (N_AAnnotation i k) = Some i"
| "alert_index _ = None"

definition alert_names :: "nat \<Rightarrow> Alert \<Rightarrow> ename list" where
  "alert_names i alert =
     [N_AStatus i, N_AStart i, N_AEnd i, N_AUrl i] @
     map (\<lambda>(k, v). N_ALabel i k) (alert_Labels alert) @
     map (\<lambda>(k, v). N_AAnnotation i k) (alert_Annotations alert)"

definition names :: "Data \<Rightarrow> ename list" where
  "names td =
     [N_Receiver, N_Status, N_ExternalURL, N_AlertLen] @
     map (\<lambda>(k, v). N_Label k) (CommonLabels td) @
     map (\<lambda>(k, v). N_GLabel k) (GroupLabels td) @
     map (\<lambda>(k, v). N_Annotation k) (CommonAnnotations td) @
     concat (map (\<lambda>(i, alert). alert_names i alert) (enumerate 0 (Alerts td)))"


definition is_num :: "char \<Rightarrow> bool" where
  "is_num c = (c = CHR ''-'' \<or> is_digit c)"

section \<open>The shape of an encoding\<close>

text \<open>
  What the loops of the encoder leave open, said without the lists of possible results:
  \<^item> \<^term>\<open>kv_block f m g\<close>: the block \<^term>\<open>g\<close> holds the entries of the map \<^term>\<open>m\<close>,
    in some order;
  \<^item> \<^term>\<open>maps_block f pms ms\<close>: \<^term>\<open>ms\<close> holds the entries of the maps \<^term>\<open>pms\<close>,
    one map after the other in some order of the maps, the entries of each map together
    and in some order;
  \<^item> \<^term>\<open>alert_block i alert b\<close>: \<^term>\<open>b\<close> is the four scalar entries of the alert at
    index \<^term>\<open>i\<close>, followed by such a block for its two maps;
  \<^item> \<^term>\<open>encoding td e\<close>: \<^term>\<open>e\<close> is the four top-level scalar entries, then such a
    block for the three top-level maps, then one block for each alert, in the order of
    the alerts.

  \<^term>\<open>one_order td\<close> holds when no loop over a map literal has more than one entry to
  visit in all, so that no loop has a choice.
\<close>

definition kv_block :: "(string \<Rightarrow> string \<Rightarrow> string) \<Rightarrow> KV \<Rightarrow> string list \<Rightarrow> bool" where
  "kv_block f m g \<longleftrightarrow> mset g = mset (kv_entries f m)"

definition maps_block ::
  "(string \<Rightarrow> string \<Rightarrow> string \<Rightarrow> string) \<Rightarrow> (string \<times> KV) list \<Rightarrow> string list \<Rightarrow> bool" where
  "maps_block f pms ms \<longleftrightarrow>
     (\<exists>ord gs. mset ord = mset pms \<and> list_all2 (\<lambda>g (p, m). kv_block (f p) m g) gs ord \<and>
        ms = concat gs)"

definition alert_block :: "nat \<Rightarrow> Alert \<Rightarrow> string list \<Rightarrow> bool" where
  "alert_block i alert b \<longleftrightarrow>
     (\<exists>r. b = alert_scalars i alert @ r \<and> maps_block (alert_entry i) (alert_maps alert) r)"

definition encoding :: "Data \<Rightarrow> string list \<Rightarrow> bool" where
  "encoding td e \<longleftrightarrow>
     (\<exists>ms bs. e = top_scalars td @ ms @ concat bs \<and>
        maps_block top_entry (top_maps td) ms \<and>
        list_all2 (\<lambda>b (i, alert). alert_block i alert b) bs (enumerate 0 (Alerts td)))"

definition one_order :: "Data \<Rightarrow> bool" where
  "one_order td \<longleftrightarrow>
     length (concat (map snd (top_maps td))) \<le> 1 \<and>
     list_all (\<lambda>alert. length (concat (map snd (alert_maps alert))) \<le> 1) (Alerts td)"

section \<open>Facts about decimal numerals\<close>

lemma digit_cases:
  assumes "d < (10::nat)"
  obtains "d = 0" | "d = 1" | "d = 2" | "d = 3" | "d = 4"
        | "d = 5" | "d = 6" | "d = 7" | "d = 8" | "d = 9"
proof -
  from assms
  have "d = 0 \<or> d = 1 \<or> d = 2 \<or> d = 3 \<or> d = 4 \<or> d = 5 \<or> d = 6 \<or> d = 7 \<or> d = 8 \<or> d = 9"
    by arith
  with that show thesis by blast
qed

lemma is_digit_digit: "d < 10 \<Longrightarrow> is_digit (digit d)"
  by (erule digit_cases) (simp_all add: is_digit_def digit_def)

lemma digit_val_digit: "d < 10 \<Longrightarrow> digit_val (digit d) = d"
  by (erule digit_cases) (simp_all add: digit_val_def digit_def)

lemma utoa_all_digits: "list_all is_digit (utoa n)"
proof (induction n rule: utoa.induct)
  case (1 n)
  show ?case
  proof (cases "n < 10")
    case True
    then show ?thesis by (simp add: utoa.simps [of n] is_digit_digit)
  next
    case False
    with 1 show ?thesis by (simp add: utoa.simps [of n] is_digit_digit)
  qed
qed

lemma utoa_not_Nil: "utoa n \<noteq> []"
  by (simp add: utoa.simps [of n])

lemma foldl_utoa: "foldl (\<lambda>a c. 10 * a + digit_val c) 0 (utoa n) = n"
proof (induction n rule: utoa.induct)
  case (1 n)
  show ?case
  proof (cases "n < 10")
    case True
    then show ?thesis by (simp add: utoa.simps [of n] digit_val_digit)
  next
    case False
    with 1 show ?thesis by (simp add: utoa.simps [of n] digit_val_digit)
  qed
qed

lemma atou_utoa: "atou (utoa n) = Some n"
  by (simp add: atou_def utoa_not_Nil utoa_all_digits foldl_utoa)

lemma utoa_hd_digit: "\<exists>c r. utoa n = c # r \<and> is_digit c"
  using utoa_not_Nil [of n] utoa_all_digits [of n] by (cases "utoa n") auto

lemma Atoi_Itoa:
  assumes "- (2 ^ 63) \<le> i" and "i < 2 ^ 63"
  shows "Atoi (Itoa i) = Some i"
proof (cases "i < 0")
  case True
  then show ?thesis using assms by (simp add: Atoi_def Itoa_def atou_utoa)
next
  case False
  obtain c r where cr: "utoa (nat i) = c # r" "is_digit c"
    using utoa_hd_digit by blast
  from cr(2) have "c \<noteq> CHR ''-''" "c \<noteq> CHR ''+''"
    by (auto simp: is_digit_def)
  moreover have "atou (c # r) = Some (nat i)"
    using atou_utoa [of "nat i"] cr(1) by simp
  ultimately show ?thesis using False assms cr(1)
    by (simp add: Atoi_def Itoa_def)
qed

section \<open>The timestamp encoder\<close>

lemma Atoi_Itoa_sint: "Atoi (Itoa (sint (w :: 64 word))) = Some (sint w)"
proof -
  have "- (2 ^ 63) \<le> sint w" using sint_ge [of w] by simp
  moreover have "sint w < 2 ^ 63" using sint_lt [of w] by simp
  ultimately show ?thesis by (rule Atoi_Itoa)
qed

lemma time_Unix_Unix: "time_Unix (Unix t) = t\<lparr>t_nsec := 0\<rparr>"
  by (simp add: time_Unix_def Unix_def)

text \<open>
  Claim C8. \<^verbatim>\<open>timeToStr\<close> gives the text \<^verbatim>\<open>"0"\<close> for the zero timestamp and the decimal
  text of the Unix seconds for every other one; for a timestamp that is not zero, reading
  that text back as a timestamp gives the original with the nanoseconds dropped.
\<close>

theorem timeToStr_roundtrip:
  "(IsZero t \<longrightarrow> timeToStr t = ''0'') \<and>
   (\<not> IsZero t \<longrightarrow>
      timeToStr t = Itoa (sint (Unix t)) \<and>
      parse_time (timeToStr t) = Some (t\<lparr>t_nsec := 0\<rparr>) \<and>
      map_option Unix (parse_time (timeToStr t)) = Some (Unix t))"
proof -
  have "parse_time (Itoa (sint (Unix t))) = Some (t\<lparr>t_nsec := 0\<rparr>)"
    by (simp add: parse_time_def Atoi_Itoa_sint time_Unix_Unix)
  moreover have "Unix (t\<lparr>t_nsec := 0\<rparr>) = Unix t"
    by (simp add: Unix_def)
  ultimately show ?thesis
    by (simp add: timeToStr_def)
qed

theorem timeToStr_roundtrip_witness:
  "IsZero \<lparr>t_sec = 0, t_nsec = 0\<rparr> \<and>
   timeToStr \<lparr>t_sec = 0, t_nsec = 0\<rparr> = ''0'' \<and>
   \<not> IsZero \<lparr>t_sec = 63724596800, t_nsec = 5\<rparr> \<and>
   timeToStr \<lparr>t_sec = 63724596800, t_nsec = 5\<rparr> = ''1589000000'' \<and>
   parse_time ''1589000000'' = Some \<lparr>t_sec = 63724596800, t_nsec = 0\<rparr>"
proof -
  let ?z = "\<lparr>t_sec = 0, t_nsec = 0\<rparr>"
  let ?t = "\<lparr>t_sec = 63724596800, t_nsec = 5\<rparr>"
  have z: "IsZero ?z" and nz: "\<not> IsZero ?t"
    by (simp_all add: IsZero_def)
  have s: "timeToStr ?t = ''1589000000''"
    by (simp add: timeToStr_def IsZero_def Unix_def unixToInternal_def Itoa_def
        utoa.simps digit_def)
  have "timeToStr ?z = ''0''"
    using timeToStr_roundtrip [of ?z] z by blast
  moreover have "parse_time (timeToStr ?t) = Some (?t\<lparr>t_nsec := 0\<rparr>)"
    using timeToStr_roundtrip [of ?t] nz by blast
  then have "parse_time ''1589000000'' = Some (?t\<lparr>t_nsec := 0\<rparr>)"
    by (simp only: s)
  ultimately show ?thesis using z nz s by simp
qed

section \<open>Every result of the encoder is a rearrangement of one vector\<close>

lemma interleave_mset: "zs \<in> set (interleave x ys) \<Longrightarrow> mset zs = add_mset x (mset ys)"
  by (induction ys arbitrary: zs) auto

lemma range_orders_mset: "zs \<in> set (range_orders xs) \<Longrightarrow> mset zs = mset xs"
  by (induction xs arbitrary: zs) (auto dest: interleave_mset)

lemma interleave_hd: "x # ys \<in> set (interleave x ys)"
  by (cases ys) simp_all

lemma range_orders_self: "xs \<in> set (range_orders xs)"
  by (induction xs) (auto intro: interleave_hd)

lemma interleave_mid: "as @ x # bs \<in> set (interleave x (as @ bs))"
  by (induction as) (auto intro: interleave_hd)

lemma range_orders_complete: "mset zs = mset xs \<Longrightarrow> zs \<in> set (range_orders xs)"
proof (induction xs arbitrary: zs)
  case Nil
  then show ?case by simp
next
  case (Cons x xs)
  then have "x \<in> set zs"
    by (metis list.set_intros(1) mset_eq_setD)
  then obtain as bs where zs: "zs = as @ x # bs"
    by (auto simp: in_set_conv_decomp)
  with Cons.prems have "mset (as @ bs) = mset xs" by simp
  then have "as @ bs \<in> set (range_orders xs)" by (rule Cons.IH)
  then show ?case using zs interleave_mid [of as x bs] by auto
qed

lemma set_range_orders: "set (range_orders xs) = {zs. mset zs = mset xs}"
  by (auto intro: range_orders_complete dest: range_orders_mset)

lemma set_seqs_Cons:
  "set (seqs (A # As)) = {a @ b | a b. a \<in> set A \<and> b \<in> set (seqs As)}"
  by auto

lemma seqs_mset:
  "list_all2 (\<lambda>A c. \<forall>a \<in> set A. mset a = mset c) As cs \<Longrightarrow> e \<in> set (seqs As)
   \<Longrightarrow> mset e = mset (concat cs)"
proof (induction As cs arbitrary: e rule: list_all2_induct)
  case Nil
  then show ?case by simp
next
  case (Cons A As c cs)
  from Cons.prems obtain a b where "e = a @ b" "a \<in> set A" "b \<in> set (seqs As)"
    by auto
  with Cons.hyps(1) Cons.IH [of b] show ?case by simp
qed

lemma seqs_canon:
  "list_all2 (\<lambda>A c. c \<in> set A) As cs \<Longrightarrow> concat cs \<in> set (seqs As)"
  by (induction As cs rule: list_all2_induct) auto

lemma range_kv_mset: "e \<in> set (range_kv f m) \<Longrightarrow> mset e = mset (kv_entries f m)"
  by (auto simp: range_kv_def kv_entries_def dest!: range_orders_mset)

lemma range_kv_canon: "kv_entries f m \<in> set (range_kv f m)"
  using range_orders_self [of m] by (auto simp: range_kv_def kv_entries_def)

lemma range_kv_all2:
  "list_all2 (\<lambda>A c. \<forall>a \<in> set A. mset a = mset c)
     (map (\<lambda>(p, m). range_kv (f p) m) ord) (map (\<lambda>(p, m). kv_entries (f p) m) ord)"
  by (induction ord) (auto dest: range_kv_mset)

lemma range_kv_all2_canon:
  "list_all2 (\<lambda>A c. c \<in> set A)
     (map (\<lambda>(p, m). range_kv (f p) m) ord) (map (\<lambda>(p, m). kv_entries (f p) m) ord)"
  by (induction ord) (auto intro: range_kv_canon)

lemma mset_concat_map_cong:
  assumes "mset xs = mset ys"
  shows "mset (concat (map g xs)) = mset (concat (map g ys))"
proof -
  have "mset (concat (map g zs)) = sum_mset (image_mset (\<lambda>x. mset (g x)) (mset zs))" for zs
    by (induction zs) simp_all
  with assms show ?thesis by simp
qed

lemma range_maps_mset:
  assumes "e \<in> set (range_maps f pms)"
  shows "mset e = mset (maps_entries f pms)"
proof -
  from assms obtain ord where ord: "ord \<in> set (range_orders pms)"
    and e: "e \<in> set (seqs (map (\<lambda>(p, m). range_kv (f p) m) ord))"
    by (auto simp: range_maps_def)
  from seqs_mset [OF range_kv_all2 e]
  have "mset e = mset (concat (map (\<lambda>(p, m). kv_entries (f p) m) ord))" .
  also have "\<dots> = mset (concat (map (\<lambda>(p, m). kv_entries (f p) m) pms))"
    using range_orders_mset [OF ord] by (rule mset_concat_map_cong)
  finally show ?thesis by (simp add: maps_entries_def)
qed

lemma range_maps_canon: "maps_entries f pms \<in> set (range_maps f pms)"
  unfolding range_maps_def maps_entries_def
  using range_orders_self [of pms] seqs_canon [OF range_kv_all2_canon, of f pms]
  by auto

lemma alert_env_mset: "e \<in> set (alert_env i a) \<Longrightarrow> mset e = mset (alert_entries i a)"
  by (auto simp: alert_env_def alert_entries_def dest!: range_maps_mset)

lemma alert_env_canon: "alert_entries i a \<in> set (alert_env i a)"
  using range_maps_canon by (auto simp: alert_env_def alert_entries_def)

lemma alert_env_all2:
  "list_all2 (\<lambda>A c. \<forall>a \<in> set A. mset a = mset c)
     (map (\<lambda>(i, alert). alert_env i alert) ias) (map (\<lambda>(i, alert). alert_entries i alert) ias)"
  by (induction ias) (auto dest: alert_env_mset)

lemma alert_env_all2_canon:
  "list_all2 (\<lambda>A c. c \<in> set A)
     (map (\<lambda>(i, alert). alert_env i alert) ias) (map (\<lambda>(i, alert). alert_entries i alert) ias)"
  by (induction ias) (auto intro: alert_env_canon)

lemma amDataToEnv_decomp:
  assumes "e \<in> set (amDataToEnv td)"
  obtains ms as where "e = top_scalars td @ ms @ as"
    and "ms \<in> set (range_maps top_entry (top_maps td))"
    and "as \<in> set (seqs (map (\<lambda>(i, alert). alert_env i alert) (enumerate 0 (Alerts td))))"
  using assms by (auto simp: amDataToEnv_def)

lemma amDataToEnv_mset:
  assumes "e \<in> set (amDataToEnv td)"
  shows "mset e = mset (entries td)"
proof -
  from assms obtain ms as where e: "e = top_scalars td @ ms @ as"
    and ms: "ms \<in> set (range_maps top_entry (top_maps td))"
    and as: "as \<in> set (seqs (map (\<lambda>(i, alert). alert_env i alert) (enumerate 0 (Alerts td))))"
    by (rule amDataToEnv_decomp)
  from seqs_mset [OF alert_env_all2 as] range_maps_mset [OF ms] e
  show ?thesis by (simp add: entries_def)
qed

lemma amDataToEnv_canon: "entries td \<in> set (amDataToEnv td)"
  using range_maps_canon [of top_entry "top_maps td"]
    seqs_canon [OF alert_env_all2_canon, of "enumerate 0 (Alerts td)"]
  by (auto simp: amDataToEnv_def entries_def)

lemma amDataToEnv_take4:
  assumes "e \<in> set (amDataToEnv td)"
  shows "take 4 e = top_scalars td"
proof -
  from assms obtain ms as where "e = top_scalars td @ ms @ as"
    by (rule amDataToEnv_decomp)
  moreover have "length (top_scalars td) = 4" by (simp add: top_scalars_def)
  ultimately show ?thesis by simp
qed

section \<open>Decimal texts and the names of entries are told apart\<close>

lemma takeWhile_until:
  "c \<notin> set a \<Longrightarrow> takeWhile (\<lambda>x. x \<noteq> c) (a @ c # r) = a"
  by (induction a) auto

lemma append_sep_eq:
  assumes "c \<notin> set a" and "c \<notin> set b"
  shows "a @ c # r = b @ c # s \<longleftrightarrow> a = b \<and> r = s"
proof
  assume eq: "a @ c # r = b @ c # s"
  then have "takeWhile (\<lambda>x. x \<noteq> c) (a @ c # r) = takeWhile (\<lambda>x. x \<noteq> c) (b @ c # s)"
    by simp
  with assms have "a = b" by (simp add: takeWhile_until)
  with eq show "a = b \<and> r = s" by simp
qed simp

lemma utoa_inj: "utoa m = utoa n \<Longrightarrow> m = n"
  by (metis atou_utoa option.inject)

lemma utoa_set: "c \<in> set (utoa n) \<Longrightarrow> is_digit c"
  using utoa_all_digits [of n] by (simp add: list_all_iff)

lemma Itoa_inj: "Itoa x = Itoa y \<Longrightarrow> x = y"
proof -
  assume eq: "Itoa x = Itoa y"
  have nd: "\<not> is_digit (CHR ''-'')" by (simp add: is_digit_def)
  have neg: "CHR ''-'' # utoa a \<noteq> utoa b" for a b
    using utoa_hd_digit [of b] nd by auto
  show ?thesis
  proof (cases "x < 0"; cases "y < 0")
    assume "x < 0" "y < 0"
    with eq have "nat (- x) = nat (- y)" by (auto simp: Itoa_def dest: utoa_inj)
    with \<open>x < 0\<close> \<open>y < 0\<close> show ?thesis by simp
  next
    assume "x < 0" "\<not> y < 0"
    with eq neg show ?thesis by (simp add: Itoa_def)
  next
    assume "\<not> x < 0" "y < 0"
    with eq neg [of "nat (- y)" "nat x"] show ?thesis by (simp add: Itoa_def)
  next
    assume "\<not> x < 0" "\<not> y < 0"
    with eq have "nat x = nat y" by (auto simp: Itoa_def dest: utoa_inj)
    with \<open>\<not> x < 0\<close> \<open>\<not> y < 0\<close> show ?thesis by simp
  qed
qed

lemma Itoa_eq_iff [simp]: "Itoa x = Itoa y \<longleftrightarrow> x = y"
  by (auto dest: Itoa_inj)

lemma Itoa_set: "c \<in> set (Itoa x) \<Longrightarrow> is_num c"
  by (auto simp: Itoa_def is_num_def dest: utoa_set split: if_splits)

lemma Itoa_not_Nil: "Itoa x \<noteq> []"
  by (simp add: Itoa_def utoa_not_Nil)

lemma Itoa_hd: "\<exists>c r. Itoa x = c # r \<and> is_num c"
  using Itoa_not_Nil [of x] Itoa_set [of _ x] by (cases "Itoa x") auto

lemma Itoa_sep [simp]:
  "Itoa x @ CHR ''_'' # r = Itoa y @ CHR ''_'' # s \<longleftrightarrow> x = y \<and> r = s"
proof -
  have "CHR ''_'' \<notin> set (Itoa z)" for z
    using Itoa_set [of "CHR ''_''" z] by (auto simp: is_num_def is_digit_def)
  then show ?thesis
    using append_sep_eq [of "CHR ''_''" "Itoa x" "Itoa y" r s] by (auto dest: Itoa_inj)
qed

lemma Itoa_append_neq [simp]:
  "\<not> is_num c \<Longrightarrow> Itoa x @ r \<noteq> c # s"
  "\<not> is_num c \<Longrightarrow> c # s \<noteq> Itoa x @ r"
  using Itoa_hd [of x] by auto

lemma is_num_simps [simp]:
  "\<not> is_num (CHR ''L'')" "\<not> is_num (CHR ''_'')" "\<not> is_num (CHR ''='')"
  by (simp_all add: is_num_def is_digit_def)

lemma render_inj: "render a = render b \<Longrightarrow> a = b"
  by (cases a; cases b; simp add: alert_key_def)

section \<open>The names of a payload are distinct\<close>

lemma alert_names_index: "x \<in> set (alert_names i a) \<Longrightarrow> alert_index x = Some i"
  by (auto simp: alert_names_def)

lemma alert_names_enumerate_index:
  "x \<in> set (concat (map (\<lambda>(i, alert). alert_names i alert) (enumerate n as)))
   \<Longrightarrow> \<exists>i\<ge>n. alert_index x = Some i"
proof (induction as arbitrary: n)
  case Nil
  then show ?case by simp
next
  case (Cons a as)
  from Cons.prems consider "x \<in> set (alert_names n a)"
    | "x \<in> set (concat (map (\<lambda>(i, alert). alert_names i alert) (enumerate (Suc n) as)))"
    by auto
  then show ?case
  proof cases
    case 1
    then show ?thesis by (auto dest: alert_names_index)
  next
    case 2
    from Cons.IH [OF this] show ?thesis by (auto intro: Suc_leD)
  qed
qed

lemma distinct_map_key:
  assumes "distinct (map fst m)" and "inj c"
  shows "distinct (map (\<lambda>(k, v). c k) m)"
proof -
  have "map (\<lambda>(k, v). c k) m = map c (map fst m)" by (simp add: case_prod_beta comp_def)
  with assms show ?thesis by (auto simp: distinct_map inj_on_def dest: injD)
qed

lemma distinct_alert_names:
  assumes "distinct (map fst (alert_Labels a))" and "distinct (map fst (alert_Annotations a))"
  shows "distinct (alert_names i a)"
proof -
  have "distinct (map (\<lambda>(k, v). N_ALabel i k) (alert_Labels a))"
    using assms(1) by (rule distinct_map_key) (simp add: inj_def)
  moreover have "distinct (map (\<lambda>(k, v). N_AAnnotation i k) (alert_Annotations a))"
    using assms(2) by (rule distinct_map_key) (simp add: inj_def)
  ultimately show ?thesis by (auto simp: alert_names_def)
qed

lemma distinct_alerts_names:
  assumes "list_all (\<lambda>a. distinct (map fst (alert_Labels a)) \<and> distinct (map fst (alert_Annotations a))) as"
  shows "distinct (concat (map (\<lambda>(i, alert). alert_names i alert) (enumerate n as)))"
  using assms
proof (induction as arbitrary: n)
  case Nil
  then show ?case by simp
next
  case (Cons a as)
  have disj: "set (alert_names n a) \<inter>
      set (concat (map (\<lambda>(i, alert). alert_names i alert) (enumerate (Suc n) as))) = {}"
  proof (rule ccontr)
    assume "\<not> ?thesis"
    then obtain x where x1: "x \<in> set (alert_names n a)"
      and x2: "x \<in> set (concat (map (\<lambda>(i, alert). alert_names i alert) (enumerate (Suc n) as)))"
      by blast
    from alert_names_index [OF x1] alert_names_enumerate_index [OF x2] show False by auto
  qed
  from Cons.prems have "distinct (alert_names n a)"
    by (simp add: distinct_alert_names)
  moreover from Cons.prems Cons.IH [of "Suc n"]
  have "distinct (concat (map (\<lambda>(i, alert). alert_names i alert) (enumerate (Suc n) as)))"
    by simp
  ultimately show ?case using disj by simp
qed

lemma unique_keys_alerts:
  "unique_keys td \<Longrightarrow>
   list_all (\<lambda>a. distinct (map fst (alert_Labels a)) \<and> distinct (map fst (alert_Annotations a))) (Alerts td)"
  by (auto simp: unique_keys_def all_maps_def list_all_iff)

lemma distinct_names:
  assumes "unique_keys td"
  shows "distinct (names td)"
proof -
  define A where "A = concat (map (\<lambda>(i, alert). alert_names i alert) (enumerate 0 (Alerts td)))"
  from assms have d: "distinct (map fst (CommonLabels td))" "distinct (map fst (GroupLabels td))"
    "distinct (map fst (CommonAnnotations td))"
    by (simp_all add: unique_keys_def all_maps_def)
  have 1: "distinct (map (\<lambda>(k, v). N_Label k) (CommonLabels td))"
    using d(1) by (rule distinct_map_key) (simp add: inj_def)
  have 2: "distinct (map (\<lambda>(k, v). N_GLabel k) (GroupLabels td))"
    using d(2) by (rule distinct_map_key) (simp add: inj_def)
  have 3: "distinct (map (\<lambda>(k, v). N_Annotation k) (CommonAnnotations td))"
    using d(3) by (rule distinct_map_key) (simp add: inj_def)
  have 4: "distinct A"
    unfolding A_def using unique_keys_alerts [OF assms] by (rule distinct_alerts_names)
  have 5: "alert_index x \<noteq> None" if "x \<in> set A" for x
    using alert_names_enumerate_index [of x 0 "Alerts td"] that by (auto simp: A_def)
  have "distinct ([N_Receiver, N_Status, N_ExternalURL, N_AlertLen] @
     map (\<lambda>(k, v). N_Label k) (CommonLabels td) @
     map (\<lambda>(k, v). N_GLabel k) (GroupLabels td) @
     map (\<lambda>(k, v). N_Annotation k) (CommonAnnotations td) @ A)"
    using 1 2 3 4 by (auto dest: 5)
  then show ?thesis by (simp add: names_def A_def)
qed

section \<open>The NAME of each entry\<close>

lemma NAME_until: "CHR ''='' \<notin> set n \<Longrightarrow> NAME (n @ CHR ''='' # v) = n"
  by (simp add: NAME_def takeWhile_until)

lemma alert_key_plain: "CHR ''='' \<notin> set (alert_key i)"
  using Itoa_set [of "CHR ''=''" "int i + 1"] by (auto simp: alert_key_def)

lemma NAME_top_entry:
  "CHR ''='' \<notin> set p \<Longrightarrow> CHR ''='' \<notin> set k \<Longrightarrow> NAME (top_entry p k v) = p @ ''_'' @ k"
  using NAME_until [of "p @ ''_'' @ k" v] by (simp add: top_entry_def)

lemma NAME_alert_entry:
  "CHR ''='' \<notin> set p \<Longrightarrow> CHR ''='' \<notin> set k
   \<Longrightarrow> NAME (alert_entry i p k v) = alert_key i @ ''_'' @ p @ ''_'' @ k"
  using NAME_until [of "alert_key i @ ''_'' @ p @ ''_'' @ k" v] alert_key_plain [of i]
  by (simp add: alert_entry_def)

lemma NAME_kv_entries:
  assumes "list_all (\<lambda>(k, v). CHR ''='' \<notin> set k) m"
    and "\<And>k v. CHR ''='' \<notin> set k \<Longrightarrow> NAME (f k v) = render (c k)"
  shows "map NAME (kv_entries f m) = map render (map (\<lambda>(k, v). c k) m)"
  using assms(1) by (induction m) (auto simp: kv_entries_def assms(2))

lemma NAME_top_scalars:
  "map NAME (top_scalars td) = map render [N_Receiver, N_Status, N_ExternalURL, N_AlertLen]"
  by (simp add: top_scalars_def NAME_def)

lemma NAME_alert_scalars:
  "map NAME (alert_scalars i a) = map render [N_AStatus i, N_AStart i, N_AEnd i, N_AUrl i]"
proof -
  have "NAME (alert_key i @ s @ ''='' @ v) = alert_key i @ s" if "CHR ''='' \<notin> set s" for s v
    using NAME_until [of "alert_key i @ s" v] alert_key_plain [of i] that by simp
  from this [of "''_STATUS''"] this [of "''_START''"] this [of "''_END''"] this [of "''_URL''"]
  show ?thesis by (simp add: alert_scalars_def)
qed

lemma NAME_alert_entries:
  assumes "list_all (\<lambda>(k, v). CHR ''='' \<notin> set k) (alert_Labels a)"
    and "list_all (\<lambda>(k, v). CHR ''='' \<notin> set k) (alert_Annotations a)"
  shows "map NAME (alert_entries i a) = map render (alert_names i a)"
proof -
  have "map NAME (kv_entries (alert_entry i ''LABEL'') (alert_Labels a)) =
      map render (map (\<lambda>(k, v). N_ALabel i k) (alert_Labels a))"
    using assms(1) by (rule NAME_kv_entries) (simp add: NAME_alert_entry)
  moreover have "map NAME (kv_entries (alert_entry i ''ANNOTATION'') (alert_Annotations a)) =
      map render (map (\<lambda>(k, v). N_AAnnotation i k) (alert_Annotations a))"
    using assms(2) by (rule NAME_kv_entries) (simp add: NAME_alert_entry)
  ultimately show ?thesis
    using NAME_alert_scalars [of i a]
    by (simp add: alert_entries_def alert_names_def maps_entries_def alert_maps_def)
qed

lemma NAME_alerts_entries:
  assumes "list_all (\<lambda>a. list_all (\<lambda>(k, v). CHR ''='' \<notin> set k) (alert_Labels a) \<and>
             list_all (\<lambda>(k, v). CHR ''='' \<notin> set k) (alert_Annotations a)) as"
  shows "map NAME (concat (map (\<lambda>(i, alert). alert_entries i alert) (enumerate n as))) =
         map render (concat (map (\<lambda>(i, alert). alert_names i alert) (enumerate n as)))"
  using assms by (induction as arbitrary: n) (simp_all add: NAME_alert_entries)

lemma plain_keys_alerts:
  "plain_keys td \<Longrightarrow>
   list_all (\<lambda>a. list_all (\<lambda>(k, v). CHR ''='' \<notin> set k) (alert_Labels a) \<and>
             list_all (\<lambda>(k, v). CHR ''='' \<notin> set k) (alert_Annotations a)) (Alerts td)"
  by (auto simp: plain_keys_def all_maps_def list_all_iff)

lemma NAME_entries:
  assumes "plain_keys td"
  shows "map NAME (entries td) = map render (names td)"
proof -
  from assms have p: "list_all (\<lambda>(k, v). CHR ''='' \<notin> set k) (CommonLabels td)"
    "list_all (\<lambda>(k, v). CHR ''='' \<notin> set k) (GroupLabels td)"
    "list_all (\<lambda>(k, v). CHR ''='' \<notin> set k) (CommonAnnotations td)"
    by (simp_all add: plain_keys_def all_maps_def)
  have 1: "map NAME (kv_entries (top_entry ''AMX_LABEL'') (CommonLabels td)) =
      map render (map (\<lambda>(k, v). N_Label k) (CommonLabels td))"
    using p(1) by (rule NAME_kv_entries) (simp add: NAME_top_entry)
  have 2: "map NAME (kv_entries (top_entry ''AMX_GLABEL'') (GroupLabels td)) =
      map render (map (\<lambda>(k, v). N_GLabel k) (GroupLabels td))"
    using p(2) by (rule NAME_kv_entries) (simp add: NAME_top_entry)
  have 3: "map NAME (kv_entries (top_entry ''AMX_ANNOTATION'') (CommonAnnotations td)) =
      map render (map (\<lambda>(k, v). N_Annotation k) (CommonAnnotations td))"
    using p(3) by (rule NAME_kv_entries) (simp add: NAME_top_entry)
  show ?thesis
    using 1 2 3 NAME_top_scalars [of td] NAME_alerts_entries [OF plain_keys_alerts [OF assms], of 0]
    by (simp add: entries_def names_def maps_entries_def top_maps_def)
qed

lemma distinct_NAME_entries:
  assumes "unique_keys td" and "plain_keys td"
  shows "distinct (map NAME (entries td))"
proof -
  have "inj_on render (set (names td))"
    by (auto simp: inj_on_def dest: render_inj)
  with distinct_names [OF assms(1)] have "distinct (map render (names td))"
    by (simp add: distinct_map)
  then show ?thesis by (simp add: NAME_entries [OF assms(2)])
qed

lemma named_kv:
  assumes "\<And>k v. NAME (f k v) \<noteq> []"
  shows "list_all (\<lambda>e. NAME e \<noteq> []) (kv_entries f m)"
  by (induction m) (simp_all add: kv_entries_def assms split: prod.split)

lemma named_top_entry:
  "NAME (top_entry (CHR ''A'' # p) k v) \<noteq> []"
  by (simp add: top_entry_def NAME_def)

lemma named_alert_key: "NAME (alert_key i @ r) \<noteq> []"
  by (simp add: alert_key_def NAME_def)

lemma named_alert_entries: "list_all (\<lambda>e. NAME e \<noteq> []) (alert_entries i al)"
proof -
  have "NAME (alert_entry i p k v) \<noteq> []" for p k v
    unfolding alert_entry_def by (rule named_alert_key)
  then have "list_all (\<lambda>e. NAME e \<noteq> []) (kv_entries (alert_entry i p) m)" for p m
    by (rule named_kv)
  moreover have "list_all (\<lambda>e. NAME e \<noteq> []) (alert_scalars i al)"
    by (simp add: alert_scalars_def named_alert_key)
  ultimately show ?thesis
    by (simp add: alert_entries_def maps_entries_def alert_maps_def)
qed

lemma named_entries: "list_all (\<lambda>e. NAME e \<noteq> []) (entries td)"
proof -
  have t: "list_all (\<lambda>e. NAME e \<noteq> []) (kv_entries (top_entry (CHR ''A'' # p)) m)" for p m
    using named_top_entry by (rule named_kv)
  have as: "list_all (\<lambda>e. NAME e \<noteq> [])
      (concat (map (\<lambda>(i, alert). alert_entries i alert) ias))" for ias
    by (induction ias) (auto simp: named_alert_entries)
  have s: "list_all (\<lambda>e. NAME e \<noteq> []) (top_scalars td)"
    by (simp add: top_scalars_def NAME_def)
  show ?thesis
    using as [of "enumerate 0 (Alerts td)"] s t
    by (simp add: entries_def maps_entries_def top_maps_def)
qed

lemma NAME_entries_not_Nil: "[] \<notin> set (map NAME (entries td))"
  using named_entries [of td] by (auto simp: list_all_iff)

text \<open>
  Claim C5, as amended. Take a payload whose maps each hold a key once. In every vector the
  encoder can return, no entry has an empty NAME (the text before the first \<^verbatim>\<open>=\<close>),
  whatever the keys hold; and when no map key holds the character \<^verbatim>\<open>=\<close>, the NAMEs of
  the vector are pairwise distinct.
\<close>

theorem amDataToEnv_names:
  assumes "unique_keys td" and "env \<in> set (amDataToEnv td)"
  shows "[] \<notin> set (map NAME env) \<and> (plain_keys td \<longrightarrow> distinct (map NAME env))"
proof -
  from amDataToEnv_mset [OF assms(2)] have m: "mset (map NAME env) = mset (map NAME (entries td))"
    by simp
  then have "set (map NAME env) = set (map NAME (entries td))"
    by (rule mset_eq_setD)
  with NAME_entries_not_Nil [of td] have "[] \<notin> set (map NAME env)" by simp
  moreover have "distinct (map NAME env)" if "plain_keys td"
    using distinct_NAME_entries [OF assms(1) that] mset_eq_imp_distinct_iff [OF m] by simp
  ultimately show ?thesis by simp
qed

lemma entries_td_1: "entries td_1 = env_1"
  by (simp add: entries_def td_1_def env_1_def top_scalars_def top_maps_def maps_entries_def
      kv_entries_def top_entry_def enumerate_eq_zip alert_entries_def alert_scalars_def alert_key_def
      alert_maps_def alert_entry_def timeToStr_def IsZero_def Unix_def unixToInternal_def
      Itoa_def utoa.simps digit_def)

theorem amDataToEnv_names_witness:
  "unique_keys td_1 \<and> plain_keys td_1 \<and> env_1 \<in> set (amDataToEnv td_1) \<and>
   [] \<notin> set (map NAME env_1) \<and> distinct (map NAME env_1)"
proof -
  have u: "unique_keys td_1" and p: "plain_keys td_1"
    by (simp_all add: unique_keys_def plain_keys_def all_maps_def td_1_def)
  have e: "env_1 \<in> set (amDataToEnv td_1)"
    using amDataToEnv_canon [of td_1] by (simp add: entries_td_1)
  from amDataToEnv_names [OF u e] p u e show ?thesis by simp
qed

text \<open>
  The claim as stated fails for keys that hold \<^verbatim>\<open>=\<close>: the keys \<^verbatim>\<open>a=1\<close> and \<^verbatim>\<open>a=2\<close>
  of one map are different, they pass through as they are, and both entries get the NAME
  \<^verbatim>\<open>AMX_LABEL_a\<close>.
\<close>

theorem amDataToEnv_names_counterexample:
  "unique_keys td_eq \<and> env_eq \<in> set (amDataToEnv td_eq) \<and> \<not> distinct (map NAME env_eq)"
proof -
  have "unique_keys td_eq"
    by (simp add: unique_keys_def all_maps_def td_eq_def)
  moreover have "entries td_eq = env_eq"
    by (simp add: entries_def td_eq_def env_eq_def top_scalars_def top_maps_def maps_entries_def
      kv_entries_def top_entry_def enumerate_eq_zip Itoa_def utoa.simps digit_def)
  then have "env_eq \<in> set (amDataToEnv td_eq)"
    using amDataToEnv_canon [of td_eq] by simp
  moreover have "\<not> distinct (map NAME env_eq)"
    by (simp add: env_eq_def NAME_def)
  ultimately show ?thesis by simp
qed

lemma amDataToEnv_same_entries:
  assumes "e1 \<in> set (amDataToEnv td)" and "e2 \<in> set (amDataToEnv td)"
  shows "mset e1 = mset e2 \<and> length e1 = length e2 \<and> take 4 e1 = take 4 e2"
proof -
  have "mset e1 = mset e2"
    using amDataToEnv_mset [OF assms(1)] amDataToEnv_mset [OF assms(2)] by simp
  moreover from this have "length e1 = length e2" by (rule mset_eq_length)
  moreover have "take 4 e1 = take 4 e2"
    using amDataToEnv_take4 [OF assms(1)] amDataToEnv_take4 [OF assms(2)] by simp
  ultimately show ?thesis by simp
qed

lemma amDataToEnv_td_0: "env_ab \<in> set (amDataToEnv td_0) \<and> env_ba \<in> set (amDataToEnv td_0)"
  by (simp add: amDataToEnv_def td_0_def env_ab_def env_ba_def top_scalars_def top_maps_def
      range_maps_def range_kv_def top_entry_def enumerate_eq_zip Itoa_def utoa.simps digit_def)

lemma amDataToEnv_not_Nil: "amDataToEnv td \<noteq> []"
  using amDataToEnv_canon [of td] by auto

section \<open>The shape of every encoding\<close>

lemma mset_map_rearranged:
  "mset g = mset (map F xs) \<Longrightarrow> \<exists>vs. mset vs = mset xs \<and> g = map F vs"
proof (induction g arbitrary: xs)
  case Nil
  then have "xs = []" by simp
  then show ?case by simp
next
  case (Cons y g)
  from Cons.prems have "set (y # g) = set (map F xs)"
    by (rule mset_eq_setD)
  then have "y \<in> F ` set xs" by auto
  then obtain x where x: "x \<in> set xs" and y: "y = F x" ..
  from x have "\<exists>as bs. xs = as @ x # bs"
    by (simp add: in_set_conv_decomp)
  then obtain as bs where xs: "xs = as @ x # bs"
    by (elim exE)
  have "mset g = mset (map F (as @ bs))"
    using Cons.prems unfolding xs y by simp
  then have "\<exists>vs. mset vs = mset (as @ bs) \<and> g = map F vs"
    by (rule Cons.IH)
  then obtain vs where vs1: "mset vs = mset (as @ bs)" and vs2: "g = map F vs"
    by (elim exE conjE)
  have "mset (x # vs) = mset xs" using vs1 xs by simp
  moreover have "y # g = map F (x # vs)" using vs2 y by simp
  ultimately have "mset (x # vs) = mset xs \<and> y # g = map F (x # vs)" ..
  then show ?case by (rule exI)
qed

lemma set_range_kv: "g \<in> set (range_kv f m) \<longleftrightarrow> kv_block f m g"
proof
  assume "g \<in> set (range_kv f m)"
  then show "kv_block f m g" by (simp add: kv_block_def range_kv_mset)
next
  assume "kv_block f m g"
  then have "mset g = mset (map (\<lambda>(k, v). f k v) m)"
    by (simp add: kv_block_def kv_entries_def)
  from mset_map_rearranged [OF this]
  obtain vs where vs: "mset vs = mset m" "g = map (\<lambda>(k, v). f k v) vs" by blast
  from vs(1) have "vs \<in> set (range_orders m)" by (rule range_orders_complete)
  with vs(2) show "g \<in> set (range_kv f m)"
    by (simp add: range_kv_def)
qed

lemma set_seqs: "e \<in> set (seqs As) \<longleftrightarrow> (\<exists>gs. list_all2 (\<lambda>g A. g \<in> set A) gs As \<and> e = concat gs)"
proof (induction As arbitrary: e)
  case Nil
  then show ?case by simp
next
  case (Cons A As)
  show ?case
  proof
    assume "e \<in> set (seqs (A # As))"
    then obtain a b where "e = a @ b" "a \<in> set A" "b \<in> set (seqs As)" by auto
    moreover from this Cons.IH obtain gs where "list_all2 (\<lambda>g A. g \<in> set A) gs As" "b = concat gs"
      by blast
    ultimately have "list_all2 (\<lambda>g A. g \<in> set A) (a # gs) (A # As) \<and> e = concat (a # gs)"
      by simp
    then show "\<exists>gs. list_all2 (\<lambda>g A. g \<in> set A) gs (A # As) \<and> e = concat gs" by blast
  next
    assume "\<exists>gs. list_all2 (\<lambda>g A. g \<in> set A) gs (A # As) \<and> e = concat gs"
    then obtain gs where gs: "list_all2 (\<lambda>g A. g \<in> set A) gs (A # As)" "e = concat gs" by blast
    then obtain a gs' where "gs = a # gs'" "a \<in> set A" "list_all2 (\<lambda>g A. g \<in> set A) gs' As"
      by (auto simp: list_all2_Cons2)
    with gs(2) Cons.IH [of "concat gs'"] show "e \<in> set (seqs (A # As))" by auto
  qed
qed

lemma kv_blocks_all2:
  "list_all2 (\<lambda>g A. g \<in> set A) gs (map (\<lambda>(p, m). range_kv (f p) m) ord) \<longleftrightarrow>
   list_all2 (\<lambda>g (p, m). kv_block (f p) m g) gs ord"
  by (simp add: list_all2_map2 set_range_kv case_prod_unfold)

lemma set_range_maps: "ms \<in> set (range_maps f pms) \<longleftrightarrow> maps_block f pms ms"
proof -
  have "ms \<in> set (range_maps f pms) \<longleftrightarrow>
      (\<exists>ord. ord \<in> set (range_orders pms) \<and>
         ms \<in> set (seqs (map (\<lambda>(p, m). range_kv (f p) m) ord)))"
    by (simp add: range_maps_def Bex_def)
  also have "\<dots> \<longleftrightarrow> (\<exists>ord. mset ord = mset pms \<and>
      (\<exists>gs. list_all2 (\<lambda>g (p, m). kv_block (f p) m g) gs ord \<and> ms = concat gs))"
    by (simp only: set_range_orders set_seqs kv_blocks_all2 mem_Collect_eq)
  also have "\<dots> \<longleftrightarrow> maps_block f pms ms"
    unfolding maps_block_def by blast
  finally show ?thesis .
qed


lemma set_alert_env: "b \<in> set (alert_env i a) \<longleftrightarrow> alert_block i a b"
proof -
  have "b \<in> set (alert_env i a) \<longleftrightarrow>
      (\<exists>r. r \<in> set (range_maps (alert_entry i) (alert_maps a)) \<and> b = alert_scalars i a @ r)"
    by (simp add: alert_env_def image_iff Bex_def)
  also have "\<dots> \<longleftrightarrow> alert_block i a b"
    unfolding alert_block_def set_range_maps by blast
  finally show ?thesis .
qed

lemma alert_blocks_all2:
  "list_all2 (\<lambda>g A. g \<in> set A) bs (map (\<lambda>(i, alert). alert_env i alert) ias) \<longleftrightarrow>
   list_all2 (\<lambda>b (i, alert). alert_block i alert b) bs ias"
  by (simp add: list_all2_map2 set_alert_env case_prod_unfold)

lemma set_seqs3:
  "e \<in> set (seqs [[t], B, C]) \<longleftrightarrow> (\<exists>ms. ms \<in> set B \<and> (\<exists>as. as \<in> set C \<and> e = t @ ms @ as))"
  by (simp add: image_iff Bex_def) blast

lemma set_amDataToEnv: "e \<in> set (amDataToEnv td) \<longleftrightarrow> encoding td e"
proof -
  let ?A = "seqs (map (\<lambda>(i, alert). alert_env i alert) (enumerate 0 (Alerts td)))"
  have "e \<in> set (amDataToEnv td) \<longleftrightarrow>
      (\<exists>ms. ms \<in> set (range_maps top_entry (top_maps td)) \<and>
        (\<exists>as. as \<in> set ?A \<and> e = top_scalars td @ ms @ as))"
    unfolding amDataToEnv_def by (rule set_seqs3)
  also have "\<dots> \<longleftrightarrow> (\<exists>ms. maps_block top_entry (top_maps td) ms \<and>
        (\<exists>as. (\<exists>bs. list_all2 (\<lambda>b (i, alert). alert_block i alert b) bs (enumerate 0 (Alerts td)) \<and>
           as = concat bs) \<and> e = top_scalars td @ ms @ as))"
    by (simp only: set_range_maps set_seqs alert_blocks_all2)
  also have "\<dots> \<longleftrightarrow> encoding td e"
    unfolding encoding_def by blast
  finally show ?thesis .
qed

lemma mset_eq_short: "mset xs = mset ys \<Longrightarrow> length ys \<le> 1 \<Longrightarrow> xs = ys"
proof (cases ys)
  case Nil
  assume "mset xs = mset ys"
  with Nil show ?thesis by simp
next
  case (Cons y zs)
  assume "mset xs = mset ys" and "length ys \<le> 1"
  with Cons have "zs = []" and "mset xs = {#y#}" by simp_all
  then show ?thesis using Cons by simp
qed

lemma length_maps_entries: "length (maps_entries f pms) = length (concat (map snd pms))"
  by (induction pms) (auto simp: maps_entries_def kv_entries_def)

lemma range_maps_one_order:
  assumes "length (concat (map snd pms)) \<le> 1" and "ms \<in> set (range_maps f pms)"
  shows "ms = maps_entries f pms"
proof -
  from assms(2) have "mset ms = mset (maps_entries f pms)" by (rule range_maps_mset)
  moreover from assms(1) have "length (maps_entries f pms) \<le> 1"
    by (simp add: length_maps_entries)
  ultimately show ?thesis by (rule mset_eq_short)
qed

lemma alert_env_one_order:
  assumes "length (concat (map snd (alert_maps a))) \<le> 1" and "b \<in> set (alert_env i a)"
  shows "b = alert_entries i a"
proof -
  from assms(2) obtain r where r: "r \<in> set (range_maps (alert_entry i) (alert_maps a))"
    and b: "b = alert_scalars i a @ r"
    by (auto simp: alert_env_def)
  from range_maps_one_order [OF assms(1) r] b show ?thesis
    by (simp add: alert_entries_def)
qed

lemma seqs_single:
  "list_all2 (\<lambda>A c. \<forall>a \<in> set A. a = c) As cs \<Longrightarrow> e \<in> set (seqs As) \<Longrightarrow> e = concat cs"
proof (induction As cs arbitrary: e rule: list_all2_induct)
  case Nil
  then show ?case by simp
next
  case (Cons A As c cs)
  from Cons.prems obtain a b where "e = a @ b" "a \<in> set A" "b \<in> set (seqs As)"
    by auto
  with Cons.hyps(1) Cons.IH [of b] show ?case by simp
qed

lemma alert_env_single_all2:
  assumes "list_all (\<lambda>alert. length (concat (map snd (alert_maps alert))) \<le> 1) as"
  shows "list_all2 (\<lambda>A c. \<forall>a \<in> set A. a = c)
     (map (\<lambda>(i, alert). alert_env i alert) (enumerate n as))
     (map (\<lambda>(i, alert). alert_entries i alert) (enumerate n as))"
  using assms by (induction as arbitrary: n) (auto simp del: One_nat_def dest: alert_env_one_order)

lemma amDataToEnv_one_order:
  assumes "one_order td"
  shows "set (amDataToEnv td) = {entries td}"
proof -
  from assms have t: "length (concat (map snd (top_maps td))) \<le> 1"
    and a: "list_all (\<lambda>alert. length (concat (map snd (alert_maps alert))) \<le> 1) (Alerts td)"
    by (simp_all add: one_order_def)
  have "e = entries td" if "e \<in> set (amDataToEnv td)" for e
  proof -
    from that obtain ms as where e: "e = top_scalars td @ ms @ as"
      and ms: "ms \<in> set (range_maps top_entry (top_maps td))"
      and as: "as \<in> set (seqs (map (\<lambda>(i, alert). alert_env i alert) (enumerate 0 (Alerts td))))"
      by (rule amDataToEnv_decomp)
    from range_maps_one_order [OF t ms] seqs_single [OF alert_env_single_all2 [OF a] as] e
    show ?thesis by (simp add: entries_def)
  qed
  with amDataToEnv_canon [of td] show ?thesis by blast
qed

text \<open>
  Claim C6, as amended. The vectors the encoder can return for a payload are exactly the
  vectors of one shape: the four top-level scalar entries; then the entries of the three
  top-level maps, one map after the other in some order of the maps, the entries of each
  map together and in some order; then for each alert, in the order of the alerts, its four
  scalar entries followed by the entries of its two maps, laid out in the same way. The
  encoder always returns a vector. When no loop over maps has more than one entry to visit,
  it returns the same vector every time, the one in the order of the source text.
\<close>

theorem amDataToEnv_up_to_map_order:
  "(e \<in> set (amDataToEnv td) \<longleftrightarrow> encoding td e) \<and>
   amDataToEnv td \<noteq> [] \<and>
   (one_order td \<longrightarrow> set (amDataToEnv td) = {entries td})"
  using set_amDataToEnv [of e td] amDataToEnv_not_Nil [of td] amDataToEnv_one_order [of td]
  by simp

theorem amDataToEnv_up_to_map_order_witness:
  "env_ba \<in> set (amDataToEnv td_0) \<and> encoding td_0 env_ba \<and>
   one_order td_1 \<and> set (amDataToEnv td_1) = {env_1}"
proof -
  have m: "env_ba \<in> set (amDataToEnv td_0)"
    using amDataToEnv_td_0 by simp
  have o: "one_order td_1"
    by (simp add: one_order_def td_1_def top_maps_def alert_maps_def)
  from amDataToEnv_up_to_map_order [of env_ba td_0] m have "encoding td_0 env_ba"
    by simp
  moreover from amDataToEnv_up_to_map_order [of env_1 td_1] o
  have "set (amDataToEnv td_1) = {env_1}"
    by (simp add: entries_td_1)
  ultimately show ?thesis using m o by simp
qed

text \<open>
  The shape keeps the alerts apart and in order: a vector with the same entries and the
  same first four entries, in which an entry of the second alert stands before the entries
  of the first, is not an encoding.
\<close>

lemma entries_td_2: "entries td_2 = env_2"
  by (simp add: entries_def td_2_def env_2_def top_scalars_def top_maps_def maps_entries_def
      kv_entries_def enumerate_eq_zip alert_entries_def alert_scalars_def alert_key_def
      alert_maps_def timeToStr_def IsZero_def upt_rec Itoa_def utoa.simps digit_def)

lemma encoding_keeps_alert_order:
  "mset env_2_mixed = mset env_2 \<and> take 4 env_2_mixed = take 4 env_2 \<and>
   encoding td_2 env_2 \<and> \<not> encoding td_2 env_2_mixed"
proof -
  have o: "one_order td_2"
    by (simp add: one_order_def td_2_def top_maps_def alert_maps_def)
  then have s: "set (amDataToEnv td_2) = {env_2}"
    using amDataToEnv_one_order [of td_2] by (simp add: entries_td_2)
  have n: "env_2_mixed \<noteq> env_2"
    by (simp add: env_2_mixed_def env_2_def)
  have "mset env_2_mixed = mset env_2" "take 4 env_2_mixed = take 4 env_2"
    by (simp_all add: env_2_mixed_def env_2_def)
  moreover from s n have "encoding td_2 env_2" "\<not> encoding td_2 env_2_mixed"
    by (simp_all flip: set_amDataToEnv)
  ultimately show ?thesis by simp
qed

text \<open>
  The claim as stated fails: for a map with the keys \<^verbatim>\<open>a\<close> and \<^verbatim>\<open>b\<close> the encoder can
  return the entry of \<^verbatim>\<open>b\<close> before the entry of \<^verbatim>\<open>a\<close> as well as after it, so two
  encodings of one payload can differ and the order is not the sorted one.
\<close>

theorem amDataToEnv_order_counterexample:
  "env_ab \<in> set (amDataToEnv td_0) \<and> env_ba \<in> set (amDataToEnv td_0) \<and> env_ab \<noteq> env_ba"
  using amDataToEnv_td_0 by (simp add: env_ab_def env_ba_def)

section \<open>The runner\<close>

lemma run_eq:
  "run h env s =
     (Run_error (fst (cmd_Run h (exec_Command h env))),
      s\<lparr>executed := executed s @ [(exec_Command h env, processesCurrent s + 1)],
        logged := logged s @ map Log_child (snd (cmd_Run h (exec_Command h env)))\<rparr>)"
  by (simp add: run_def Let_def split: prod.split)

text \<open>
  Claim C7. Whatever the child does (it exits with status 0, it exits with another status,
  it cannot be started), \<^verbatim>\<open>run\<close> leaves the gauge of running processes at the value it
  had before the call; the child runs while the gauge is one higher; and \<^verbatim>\<open>run\<close> returns
  what \<^verbatim>\<open>cmd.Run()\<close> returned.
\<close>

theorem run_gauge_restored:
  "processesCurrent (snd (run h env s)) = processesCurrent s \<and>
   executed (snd (run h env s)) = executed s @ [(exec_Command h env, processesCurrent s + 1)] \<and>
   fst (run h env s) = Run_error (fst (cmd_Run h (exec_Command h env)))"
  by (simp add: run_eq)

lemma amDataToEnv_zero: "set (amDataToEnv zero_Data) = {env_zero}"
  by (simp add: amDataToEnv_def zero_Data_def env_zero_def top_scalars_def top_maps_def
      range_maps_def range_kv_def enumerate_eq_zip Itoa_def utoa.simps digit_def)

text \<open>
  Claim C1 asks for one sample in the duration histogram after every call of \<^verbatim>\<open>run\<close>. The
  source never observes a duration: here the command cannot be started, \<^verbatim>\<open>run\<close> returns
  the error, the gauge is back at 0 and the histogram is as empty as before.
\<close>

theorem run_records_no_duration:
  "fst (run host_0 env_zero world_0) = Some ''no such file or directory'' \<and>
   processesCurrent (snd (run host_0 env_zero world_0)) = 0 \<and>
   processDuration (snd (run host_0 env_zero world_0)) = []"
  by (simp add: run_eq host_0_def world_0_def)

section \<open>The webhook handler at work\<close>

lemma failed_eq:
  "failed stage err (w, s) =
     (http_Error w err 500,
      WithLabelValues stage (s\<lparr>logged := logged s @ [Log_error err]\<rparr>))"
  by (simp add: failed_def handleError_def)

text \<open>
  Claim C2 asks for the counter of the failed stage to go up by one. The source only looks
  the counter up: after a request whose body cannot be read the counter of the stage
  \<^verbatim>\<open>read\<close> exists and stands at 0, and after a request whose body does not decode and
  whose command cannot be started the counters of \<^verbatim>\<open>unmarshal\<close> and \<^verbatim>\<open>start\<close> stand at 0.
\<close>

theorem handleWebhook_counts_nothing:
  "map (\<lambda>(w, s). errCounter s ''read'')
     (handleWebhook host_0 req_unreadable (resp_0, world_0)) = [Some 0] \<and>
   set (map (\<lambda>(w, s). (errCounter s ''unmarshal'', errCounter s ''start''))
     (handleWebhook host_0 req_garbage (resp_0, world_0))) = {(Some 0, Some 0)}"
  by (simp add: handleWebhook_def host_0_def req_unreadable_def req_garbage_def resp_0_def world_0_def
      debug_def failed_eq WithLabelValues_def run_stage_def run_eq zero_Data_def [symmetric]
      amDataToEnv_zero image_image)

lemma handleWebhook_read_error:
  assumes "Body req = (data, Some err)"
  shows "handleWebhook h req (w, s) =
           [failed ''read'' err (w, debug h (Log_text ''Webhook triggered'') s)]"
  using assms by (simp add: handleWebhook_def)

lemma executed_debug [simp]: "executed (debug h l s) = executed s"
  by (simp add: debug_def)

lemma processesCurrent_debug [simp]: "processesCurrent (debug h l s) = processesCurrent s"
  by (simp add: debug_def)

lemma failed_status [simp]:
  "resp_status (fst (failed stage err (w, s))) =
     Some (case resp_status w of None \<Rightarrow> 500 | Some c \<Rightarrow> c)"
  by (simp add: failed_eq http_Error_def split: option.split)

lemma failed_executed [simp]: "executed (snd (failed stage err (w, s))) = executed s"
  by (simp add: failed_eq WithLabelValues_def)

lemma failed_processesCurrent [simp]:
  "processesCurrent (snd (failed stage err (w, s))) = processesCurrent s"
  by (simp add: failed_eq WithLabelValues_def)

text \<open>
  Claim C9. When the body of a request cannot be read, the handler answers with the status
  500 and the text of the error, and returns: no command is run, and neither the decoder
  nor the operating system is asked anything, since the outcome is the same whatever they
  would have answered.
\<close>

theorem handleWebhook_read_failure:
  assumes "Body req = (data, Some err)" and "resp_status w = None"
  shows "map (\<lambda>(w', s'). (resp_status w', resp_body w', executed s'))
           (handleWebhook h req (w, s)) = [(Some 500, resp_body w @ err @ [CHR 0x0A], executed s)] \<and>
         handleWebhook (h\<lparr>json_Unmarshal := u, cmd_Run := r\<rparr>) req (w, s) =
           handleWebhook h req (w, s)"
proof -
  have "handleWebhook h req (w, s) =
      [failed ''read'' err (w, debug h (Log_text ''Webhook triggered'') s)]"
    using assms(1) by (rule handleWebhook_read_error)
  moreover have "handleWebhook (h\<lparr>json_Unmarshal := u, cmd_Run := r\<rparr>) req (w, s) =
      [failed ''read'' err (w, debug h (Log_text ''Webhook triggered'') s)]"
    using assms(1) by (simp add: handleWebhook_def debug_def)
  ultimately show ?thesis
    using assms(2) by (simp add: failed_eq http_Error_def WithLabelValues_def debug_def)
qed

theorem handleWebhook_read_failure_witness:
  "Body req_unreadable = ([], Some ''unexpected EOF'') \<and> resp_status resp_0 = None \<and>
   map (\<lambda>(w', s'). (resp_status w', resp_body w', executed s'))
     (handleWebhook host_0 req_unreadable (resp_0, world_0)) =
     [(Some 500, ''unexpected EOF'' @ [CHR 0x0A], [])] \<and>
   handleWebhook (host_0\<lparr>json_Unmarshal := (\<lambda>data p. (None, p)),
                        cmd_Run := (\<lambda>c. (Exit0, []))\<rparr>) req_unreadable (resp_0, world_0) =
     handleWebhook host_0 req_unreadable (resp_0, world_0)"
proof -
  have b: "Body req_unreadable = ([], Some ''unexpected EOF'')"
    by (simp add: req_unreadable_def)
  have r: "resp_status resp_0 = None"
    by (simp add: resp_0_def)
  from handleWebhook_read_failure [OF b r, where h = host_0 and s = world_0
      and u = "\<lambda>data p. (None, p)" and r = "\<lambda>c. (Exit0, [])"]
  show ?thesis using b r by (simp add: resp_0_def world_0_def)
qed

lemma run_stage_view:
  "(\<lambda>(w', s'). (resp_status w', executed s')) (run_stage h (w, s) env) =
     (case Run_error (fst (cmd_Run h (exec_Command h env))) of
        None \<Rightarrow> resp_status w
      | Some err \<Rightarrow> Some (case resp_status w of None \<Rightarrow> 500 | Some c \<Rightarrow> c),
      executed s @ [(exec_Command h env, processesCurrent s + 1)])"
  by (simp add: run_stage_def run_eq failed_eq http_Error_def WithLabelValues_def
      split: option.split)

text \<open>
  Claim C3. When the body is read and does not decode, the handler answers with the status
  500 and still runs the command once, with the server's environment followed by an
  encoding of the payload as the decoder left it.
\<close>

theorem handleWebhook_decode_failure:
  assumes "Body req = (data, None)"
    and "json_Unmarshal h data zero_Data = (Some err, payload)"
    and "resp_status w = None"
  shows "amDataToEnv payload \<noteq> [] \<and>
         map (\<lambda>(w', s'). (resp_status w', executed s')) (handleWebhook h req (w, s)) =
         map (\<lambda>env. (Some 500, executed s @ [(exec_Command h env, processesCurrent s + 1)]))
           (amDataToEnv payload)"
proof -
  let ?s1 = "debug h (Log_body data) (debug h (Log_text ''Webhook triggered'') s)"
  obtain w2 s2 where f: "failed ''unmarshal'' err (w, ?s1) = (w2, s2)"
    by (cases "failed ''unmarshal'' err (w, ?s1)")
  have st: "resp_status w2 = Some 500"
    using failed_status [of "''unmarshal''" err w ?s1] assms(3) f by simp
  have ex: "executed s2 = executed s"
    using failed_executed [of "''unmarshal''" err w ?s1] f by simp
  have pc: "processesCurrent s2 = processesCurrent s"
    using failed_processesCurrent [of "''unmarshal''" err w ?s1] f by simp
  have "handleWebhook h req (w, s) =
      map (run_stage h (w2, debug h (Log_payload payload) s2)) (amDataToEnv payload)"
    using assms(1,2) f by (simp add: handleWebhook_def)
  then have "map (\<lambda>(w', s'). (resp_status w', executed s')) (handleWebhook h req (w, s)) =
      map (\<lambda>env. (\<lambda>(w', s'). (resp_status w', executed s'))
        (run_stage h (w2, debug h (Log_payload payload) s2) env)) (amDataToEnv payload)"
    by (simp add: comp_def)
  also have "\<dots> = map (\<lambda>env. (Some 500, executed s @ [(exec_Command h env, processesCurrent s + 1)]))
      (amDataToEnv payload)"
    by (simp only: run_stage_view) (simp add: st ex pc split: option.split)
  finally show ?thesis using amDataToEnv_not_Nil [of payload] by simp
qed

theorem handleWebhook_decode_failure_witness:
  "Body req_garbage = (''x'', None) \<and>
   json_Unmarshal host_0 ''x'' zero_Data = (Some ''invalid character'', zero_Data) \<and>
   resp_status resp_0 = None \<and>
   set (map (\<lambda>(w', s'). (resp_status w', executed s'))
     (handleWebhook host_0 req_garbage (resp_0, world_0))) =
     {(Some 500, [(exec_Command host_0 env_zero, 1)])}"
proof -
  have b: "Body req_garbage = (''x'', None)"
    by (simp add: req_garbage_def)
  have u: "json_Unmarshal host_0 ''x'' zero_Data = (Some ''invalid character'', zero_Data)"
    by (simp add: host_0_def)
  have r: "resp_status resp_0 = None"
    by (simp add: resp_0_def)
  from handleWebhook_decode_failure [OF b u r, of world_0]
  have "set (map (\<lambda>(w', s'). (resp_status w', executed s'))
      (handleWebhook host_0 req_garbage (resp_0, world_0))) =
    set (map (\<lambda>env. (Some 500, executed world_0 @
      [(exec_Command host_0 env, processesCurrent world_0 + 1)])) (amDataToEnv zero_Data))"
    by simp
  then show ?thesis using b u r by (simp add: amDataToEnv_zero world_0_def)
qed

text \<open>
  Claim C10. The handler does not look at the method of a request (nor at anything but its
  body): two requests with the same body are handled alike, with the same responses and
  the same effects.
\<close>

theorem handleWebhook_ignores_method:
  assumes "Body r1 = Body r2"
  shows "handleWebhook h r1 ws = handleWebhook h r2 ws"
  using assms by (simp add: handleWebhook_def)

theorem handleWebhook_ignores_method_witness:
  "Method req_get \<noteq> Method req_post \<and> Body req_get = Body req_post \<and>
   handleWebhook host_0 req_get (resp_0, world_0) = handleWebhook host_0 req_post (resp_0, world_0)"
proof -
  have b: "Body req_get = Body req_post"
    by (simp add: req_get_def req_post_def)
  from handleWebhook_ignores_method [OF b, of host_0 "(resp_0, world_0)"] b
  show ?thesis by (simp add: req_get_def req_post_def)
qed

section \<open>The reload goroutine at work\<close>

text \<open>
  Claim C4 asks for every reload signal to be handled. The goroutine ends after the first
  one: with two signals, the configuration file holding a new valid configuration at each,
  only the first reload happens and is logged; the configuration of the second never
  becomes active.
\<close>

theorem reload_goroutine_once:
  "reload_goroutine ''config.yaml'' [\<lambda>name. Inr config_1, \<lambda>name. Inr config_2]
     \<lparr>exporterConfig = config_0, reload_logged = []\<rparr> =
   \<lparr>exporterConfig = config_1, reload_logged = [Log_text ''Configuration reloaded'']\<rparr>"
  by (simp add: LoadConfig_def)

lemma reload_goroutine_first_only:
  "reload_goroutine f (files # later) st = reload_goroutine f [files] st"
  by simp

lemma reload_goroutine_failed_keeps:
  "files f = Inl err \<Longrightarrow>
   exporterConfig (reload_goroutine f (files # later) st) = exporterConfig st"
  by (simp add: LoadConfig_def)

end
